theory Spec2Isabelle
  imports Complex_Main "HOL-Library.Log_Nat"
begin

section \<open>Python values\<close>

text \<open>
  The icon generator \<^verbatim>\<open>android/generate_icons.py\<close> computes with Python integers
  (unbounded, \<^typ>\<open>int\<close>) and Python floats (IEEE 754 binary64). Exceptions are values of
  type \<open>error\<close>; a computation that may raise returns \<open>error + 'a\<close>.
\<close>

datatype error =
  ZeroDivisionError | OverflowError | ValueError | MemoryError
  | ImportError | OSError
  | FileExistsError | FileNotFoundError | IsADirectoryError | PermissionError

type_synonym 'a result = "error + 'a"

definition ebind :: "'a result \<Rightarrow> ('a \<Rightarrow> 'b result) \<Rightarrow> 'b result" where
  "ebind m f = (case m of Inl e \<Rightarrow> Inl e | Inr v \<Rightarrow> f v)"

text \<open>A list display or comprehension evaluates its elements from left to right.\<close>

fun sequence :: "'a result list \<Rightarrow> 'a list result" where
  "sequence [] = Inr []"
| "sequence (m # ms) = ebind m (\<lambda>v. ebind (sequence ms) (\<lambda>vs. Inr (v # vs)))"

definition point :: "'a result \<Rightarrow> 'b result \<Rightarrow> ('a \<times> 'b) result" where
  "point a b = ebind a (\<lambda>x. ebind b (\<lambda>y. Inr (x, y)))"

text \<open>A \<^verbatim>\<open>for\<close> loop that updates a state and may raise in its body.\<close>

fun for_each :: "('s \<Rightarrow> 'a \<Rightarrow> 's result) \<Rightarrow> 'a list \<Rightarrow> 's \<Rightarrow> 's result" where
  "for_each body [] s = Inr s"
| "for_each body (x # xs) s = ebind (body s x) (for_each body xs)"

text \<open>\<^verbatim>\<open>range(n)\<close> for an integer \<open>n\<close>: empty when \<open>n \<le> 0\<close>.\<close>

definition py_range :: "int \<Rightarrow> int list" where
  "py_range n = [0..n - 1]"

subsection \<open>binary64 floats\<close>

text \<open>
  A finite double is the rational it denotes. \<open>ilog2 x\<close> is the exponent of the binade of a
  positive \<open>x\<close> (\<open>2 powi ilog2 x \<le> x < 2 powi (ilog2 x + 1)\<close>); \<open>round_double\<close> rounds a
  rational to 53 significant bits, ties to even, with gradual underflow below
  \<open>2 powi (-1022)\<close>; \<open>to_double\<close> adds the overflow to infinity, when the rounded value
  needs an exponent above 1023. The sign of zero is not
  represented: the program never divides by a float and never prints one.
\<close>

definition ilog2 :: "rat \<Rightarrow> int" where
  "ilog2 x = (let (p, q) = quotient_of x; d = bitlen p - bitlen q
              in if 2 powi d \<le> x then d else d - 1)"

definition round_half_even :: "rat \<Rightarrow> int" where
  "round_half_even x =
     (let f = \<lfloor>x\<rfloor>; d = x - of_int f
      in if d < 1 / 2 then f else if 1 / 2 < d then f + 1
         else if even f then f else f + 1)"

definition binade :: "rat \<Rightarrow> int" where
  "binade x = max (ilog2 \<bar>x\<bar>) (- 1022)"

definition round_double :: "rat \<Rightarrow> rat" where
  "round_double x =
     (if x = 0 then 0
      else let e = max (ilog2 \<bar>x\<bar>) (- 1022); u = 2 powi (e - 52)
           in of_int (round_half_even (x / u)) * u)"

datatype pyfloat = Fin rat | PInf | NInf | NaN

definition to_double :: "rat \<Rightarrow> pyfloat" where
  "to_double x =
     (let r = round_double x
      in if r = 0 \<or> ilog2 \<bar>r\<bar> \<le> 1023 then Fin r else if 0 < r then PInf else NInf)"

fun fneg :: "pyfloat \<Rightarrow> pyfloat" where
  "fneg (Fin a) = Fin (- a)"
| "fneg PInf = NInf"
| "fneg NInf = PInf"
| "fneg NaN = NaN"

fun fadd :: "pyfloat \<Rightarrow> pyfloat \<Rightarrow> pyfloat" where
  "fadd (Fin a) (Fin b) = to_double (a + b)"
| "fadd NaN _ = NaN"
| "fadd _ NaN = NaN"
| "fadd PInf NInf = NaN"
| "fadd NInf PInf = NaN"
| "fadd PInf _ = PInf"
| "fadd _ PInf = PInf"
| "fadd NInf _ = NInf"
| "fadd _ NInf = NInf"

definition fsub :: "pyfloat \<Rightarrow> pyfloat \<Rightarrow> pyfloat" where
  "fsub a b = fadd a (fneg b)"

definition inf_of_sign :: "bool \<Rightarrow> pyfloat" where
  "inf_of_sign positive = (if positive then PInf else NInf)"

fun fmul :: "pyfloat \<Rightarrow> pyfloat \<Rightarrow> pyfloat" where
  "fmul (Fin a) (Fin b) = to_double (a * b)"
| "fmul NaN _ = NaN"
| "fmul _ NaN = NaN"
| "fmul PInf (Fin b) = (if b = 0 then NaN else inf_of_sign (0 < b))"
| "fmul NInf (Fin b) = (if b = 0 then NaN else inf_of_sign (b < 0))"
| "fmul (Fin a) PInf = (if a = 0 then NaN else inf_of_sign (0 < a))"
| "fmul (Fin a) NInf = (if a = 0 then NaN else inf_of_sign (a < 0))"
| "fmul PInf PInf = PInf"
| "fmul NInf NInf = PInf"
| "fmul PInf NInf = NInf"
| "fmul NInf PInf = NInf"

text \<open>Float division raises on a zero divisor, whatever the dividend.\<close>

fun fdiv :: "pyfloat \<Rightarrow> pyfloat \<Rightarrow> pyfloat result" where
  "fdiv a (Fin b) =
     (if b = 0 then Inl ZeroDivisionError
      else Inr (case a of Fin a' \<Rightarrow> to_double (a' / b) | PInf \<Rightarrow> inf_of_sign (0 < b)
                | NInf \<Rightarrow> inf_of_sign (b < 0) | NaN \<Rightarrow> NaN))"
| "fdiv a NaN = Inr NaN"
| "fdiv (Fin a) b = Inr (Fin 0)"
| "fdiv a b = Inr NaN"

subsection \<open>Numbers: int or float\<close>

datatype pynum = PyInt int | PyFloat pyfloat

text \<open>
  The implicit conversion of an int operand that meets a float: correctly rounded, and
  \<^verbatim>\<open>OverflowError\<close> when the int is too large for a double.
\<close>

definition float_of_int :: "int \<Rightarrow> pyfloat result" where
  "float_of_int n =
     (case to_double (of_int n) of Fin r \<Rightarrow> Inr (Fin r) | _ \<Rightarrow> Inl OverflowError)"

fun as_float :: "pynum \<Rightarrow> pyfloat result" where
  "as_float (PyInt n) = float_of_int n"
| "as_float (PyFloat x) = Inr x"

fun num_add :: "pynum \<Rightarrow> pynum \<Rightarrow> pynum result" where
  "num_add (PyInt a) (PyInt b) = Inr (PyInt (a + b))"
| "num_add a b = ebind (as_float a) (\<lambda>x. ebind (as_float b) (\<lambda>y. Inr (PyFloat (fadd x y))))"

fun num_sub :: "pynum \<Rightarrow> pynum \<Rightarrow> pynum result" where
  "num_sub (PyInt a) (PyInt b) = Inr (PyInt (a - b))"
| "num_sub a b = ebind (as_float a) (\<lambda>x. ebind (as_float b) (\<lambda>y. Inr (PyFloat (fsub x y))))"

fun num_mul :: "pynum \<Rightarrow> pynum \<Rightarrow> pynum result" where
  "num_mul (PyInt a) (PyInt b) = Inr (PyInt (a * b))"
| "num_mul a b = ebind (as_float a) (\<lambda>x. ebind (as_float b) (\<lambda>y. Inr (PyFloat (fmul x y))))"

text \<open>
  True division \<^verbatim>\<open>/\<close>. On two ints the quotient is rounded once, from the exact
  rational, and an overflowing quotient raises.
\<close>

fun num_truediv :: "pynum \<Rightarrow> pynum \<Rightarrow> pynum result" where
  "num_truediv (PyInt a) (PyInt b) =
     (if b = 0 then Inl ZeroDivisionError
      else case to_double (of_int a / of_int b) of
             Fin r \<Rightarrow> Inr (PyFloat (Fin r)) | _ \<Rightarrow> Inl OverflowError)"
| "num_truediv a b =
     ebind (as_float a) (\<lambda>x. ebind (as_float b) (\<lambda>y. ebind (fdiv x y) (\<lambda>z. Inr (PyFloat z))))"

text \<open>Floor division \<^verbatim>\<open>//\<close>, used on ints only.\<close>

definition int_floordiv :: "int \<Rightarrow> int \<Rightarrow> int result" where
  "int_floordiv a b = (if b = 0 then Inl ZeroDivisionError else Inr (a div b))"

text \<open>\<^verbatim>\<open>int(x)\<close> truncates towards zero and raises on an infinity or a NaN.\<close>

definition trunc :: "rat \<Rightarrow> int" where
  "trunc r = (if 0 \<le> r then \<lfloor>r\<rfloor> else \<lceil>r\<rceil>)"

fun num_int :: "pynum \<Rightarrow> int result" where
  "num_int (PyInt n) = Inr n"
| "num_int (PyFloat (Fin r)) = Inr (trunc r)"
| "num_int (PyFloat NaN) = Inl ValueError"
| "num_int (PyFloat _) = Inl OverflowError"

text \<open>
  Expressions: operands are evaluated left to right, then the operator is applied. A float
  literal denotes the double nearest to its decimal value; \<open>var\<close> reads a variable, of
  int or float value.
\<close>

definition lit_int :: "int \<Rightarrow> pynum result" where
  "lit_int n = Inr (PyInt n)"

definition lit_float :: "rat \<Rightarrow> pynum result" where
  "lit_float q = Inr (PyFloat (to_double q))"

definition var :: "pynum \<Rightarrow> pynum result" where
  "var v = Inr v"

definition py_add :: "pynum result \<Rightarrow> pynum result \<Rightarrow> pynum result" where
  "py_add a b = ebind a (\<lambda>x. ebind b (\<lambda>y. num_add x y))"

definition py_sub :: "pynum result \<Rightarrow> pynum result \<Rightarrow> pynum result" where
  "py_sub a b = ebind a (\<lambda>x. ebind b (\<lambda>y. num_sub x y))"

definition py_mul :: "pynum result \<Rightarrow> pynum result \<Rightarrow> pynum result" where
  "py_mul a b = ebind a (\<lambda>x. ebind b (\<lambda>y. num_mul x y))"

definition py_truediv :: "pynum result \<Rightarrow> pynum result \<Rightarrow> pynum result" where
  "py_truediv a b = ebind a (\<lambda>x. ebind b (\<lambda>y. num_truediv x y))"

definition py_int :: "pynum result \<Rightarrow> int result" where
  "py_int a = ebind a num_int"


section \<open>The imaging library\<close>

text \<open>
  The generator draws with Pillow (\<^verbatim>\<open>PIL.Image\<close>, \<^verbatim>\<open>PIL.ImageDraw\<close>), which is not part
  of the repository. An image is its mode, its size and its pixels; drawing through the
  handle \<^verbatim>\<open>ImageDraw.Draw(img)\<close> updates \<^verbatim>\<open>img\<close>, here by returning the updated image.
  What the library leaves open to the caller's eye is a parameter \<open>L\<close> of the model:
  whether a rectangle includes its second corner (the library's documentation has said
  both over the years), which pixels the polygon rasteriser covers, how one pixel is
  blended over another, and the largest side of an image it can store on the machine at
  hand.
\<close>

datatype mode = RGB | RGBA

datatype pixel = Rgb int int int | Rgba int int int int

record image =
  mode :: mode
  width :: int
  height :: int
  pixels :: "int \<Rightarrow> int \<Rightarrow> pixel"

record imaging =
  rectangle_inclusive :: bool
  polygon_covers :: "(pynum \<times> pynum) list \<Rightarrow> int \<Rightarrow> int \<Rightarrow> bool"
  blend_over :: "pixel \<Rightarrow> pixel \<Rightarrow> pixel"
  max_side :: int

definition inside :: "image \<Rightarrow> int \<Rightarrow> int \<Rightarrow> bool" where
  "inside img x y \<longleftrightarrow> 0 \<le> x \<and> x < width img \<and> 0 \<le> y \<and> y < height img"

text \<open>
  \<^verbatim>\<open>Image.new(mode, (w, h), color)\<close>. A negative side raises \<^verbatim>\<open>ValueError\<close>; a side that
  does not fit a C int (from \<open>2 ^ 31\<close>) raises \<^verbatim>\<open>OverflowError\<close>; a side the library cannot
  store raises \<^verbatim>\<open>MemoryError\<close>.
\<close>

definition Image_new :: "imaging \<Rightarrow> mode \<Rightarrow> int \<times> int \<Rightarrow> pixel \<Rightarrow> image result" where
  "Image_new L m wh color =
     (if fst wh < 0 \<or> snd wh < 0 then Inl ValueError
      else if 2 ^ 31 \<le> fst wh \<or> 2 ^ 31 \<le> snd wh then Inl OverflowError
      else if max_side L < fst wh \<or> max_side L < snd wh then Inl MemoryError
      else Inr \<lparr>mode = m, width = fst wh, height = snd wh, pixels = (\<lambda>x y. color)\<rparr>)"

text \<open>
  \<^verbatim>\<open>draw.rectangle([(x0, y0), (x1, y1)], fill=color)\<close>: fills the box, clipped to the image;
  raises when the second corner lies before the first.
\<close>

definition draw_rectangle ::
  "imaging \<Rightarrow> image \<Rightarrow> int \<times> int \<Rightarrow> int \<times> int \<Rightarrow> pixel \<Rightarrow> image result" where
  "draw_rectangle L img p0 p1 fill =
     (if fst p1 < fst p0 \<or> snd p1 < snd p0 then Inl ValueError
      else let x1 = (if rectangle_inclusive L then fst p1 else fst p1 - 1);
               y1 = (if rectangle_inclusive L then snd p1 else snd p1 - 1)
           in Inr (img\<lparr>pixels := (\<lambda>x y.
                if inside img x y \<and> fst p0 \<le> x \<and> x \<le> x1 \<and> snd p0 \<le> y \<and> y \<le> y1
                then fill else pixels img x y)\<rparr>))"

text \<open>
  \<^verbatim>\<open>draw.polygon(points, fill=color)\<close>: writes the fill colour (no blending: the handle has
  the image's own mode) to the pixels the rasteriser covers; raises on fewer than two points.
\<close>

definition draw_polygon ::
  "imaging \<Rightarrow> image \<Rightarrow> (pynum \<times> pynum) list \<Rightarrow> pixel \<Rightarrow> image result" where
  "draw_polygon L img pts fill =
     (if length pts < 2 then Inl ValueError
      else Inr (img\<lparr>pixels := (\<lambda>x y.
                if inside img x y \<and> polygon_covers L pts x y then fill else pixels img x y)\<rparr>))"

fun to_mode :: "mode \<Rightarrow> pixel \<Rightarrow> pixel" where
  "to_mode RGB (Rgba r g b a) = Rgb r g b"
| "to_mode RGB (Rgb r g b) = Rgb r g b"
| "to_mode RGBA (Rgb r g b) = Rgba r g b 255"
| "to_mode RGBA (Rgba r g b a) = Rgba r g b a"

text \<open>\<^verbatim>\<open>img.convert(mode)\<close> returns a new image; to RGB it drops the alpha channel.\<close>

definition convert :: "image \<Rightarrow> mode \<Rightarrow> image" where
  "convert img m = img\<lparr>mode := m, pixels := (\<lambda>x y. to_mode m (pixels img x y))\<rparr>"

text \<open>
  \<^verbatim>\<open>Image.alpha_composite(im1, im2)\<close>: \<^verbatim>\<open>im2\<close> over \<^verbatim>\<open>im1\<close>; both must be RGBA and of
  the same size.
\<close>

definition alpha_composite :: "imaging \<Rightarrow> image \<Rightarrow> image \<Rightarrow> image result" where
  "alpha_composite L im1 im2 =
     (if mode im1 \<noteq> RGBA \<or> mode im2 \<noteq> RGBA
         \<or> width im1 \<noteq> width im2 \<or> height im1 \<noteq> height im2
      then Inl ValueError
      else Inr \<lparr>mode = RGBA, width = width im1, height = height im1,
                pixels = (\<lambda>x y. blend_over L (pixels im1 x y) (pixels im2 x y))\<rparr>)"

section \<open>The renderer \<^verbatim>\<open>create_play_store_icon\<close>\<close>

subsection \<open>Background gradient (lines 30--42)\<close>

text \<open>The colour of row \<open>y\<close>: the body of the loop up to \<^verbatim>\<open>color = (r, g, b)\<close>.\<close>

definition gradient_color :: "int \<Rightarrow> int \<Rightarrow> pixel result" where
  "gradient_color size' y =
     ebind (py_truediv (var (PyInt y)) (var (PyInt size'))) (\<lambda>ratio.
     ebind (py_int (py_add (lit_int 0x4A)
              (py_mul (py_sub (lit_int 0x9B) (lit_int 0x4A)) (var ratio)))) (\<lambda>r.
     ebind (py_int (py_add (lit_int 0x90)
              (py_mul (py_sub (lit_int 0x59) (lit_int 0x90)) (var ratio)))) (\<lambda>g.
     ebind (py_int (py_add (lit_int 0xE2)
              (py_mul (py_sub (lit_int 0xB6) (lit_int 0xE2)) (var ratio)))) (\<lambda>b.
     Inr (Rgb r g b)))))"

definition gradient_row :: "imaging \<Rightarrow> int \<Rightarrow> image \<Rightarrow> int \<Rightarrow> image result" where
  "gradient_row L size' img y =
     ebind (gradient_color size' y) (\<lambda>color.
     draw_rectangle L img (0, y) (size', y + 1) color)"

definition draw_gradient :: "imaging \<Rightarrow> int \<Rightarrow> image \<Rightarrow> image result" where
  "draw_gradient L size' img = for_each (gradient_row L size') (py_range size') img"

text \<open>The canvas after the background pass: lines 27--42.\<close>

definition background :: "imaging \<Rightarrow> int \<Rightarrow> image result" where
  "background L size' =
     ebind (Image_new L RGB (size', size') (Rgb 255 255 255)) (draw_gradient L size')"

text \<open>
  What the pass is meant to paint: the linear interpolation between the start colour
  \<open>(0x4A, 0x90, 0xE2)\<close> and the end colour \<open>(0x9B, 0x59, 0xB6)\<close> at the ratio \<open>y / size\<close>,
  truncated to an integer per channel, each float operation rounded once.
\<close>

definition interpolate :: "int \<Rightarrow> int \<Rightarrow> rat \<Rightarrow> int" where
  "interpolate c1 c2 ratio =
     trunc (round_double (of_int c1 + round_double (of_int (c2 - c1) * ratio)))"

definition row_color :: "int \<Rightarrow> int \<Rightarrow> pixel" where
  "row_color size' y =
     (let ratio = round_double (of_int y / of_int size')
      in Rgb (interpolate 0x4A 0x9B ratio) (interpolate 0x90 0x59 ratio)
             (interpolate 0xE2 0xB6 ratio))"

fun red :: "pixel \<Rightarrow> int" where
  "red (Rgb r g b) = r"
| "red (Rgba r g b a) = r"

fun green :: "pixel \<Rightarrow> int" where
  "green (Rgb r g b) = g"
| "green (Rgba r g b a) = g"

fun blue :: "pixel \<Rightarrow> int" where
  "blue (Rgb r g b) = b"
| "blue (Rgba r g b a) = b"

text \<open>Whether a pixel carries an alpha value.\<close>

fun has_alpha :: "pixel \<Rightarrow> bool" where
  "has_alpha (Rgb r g b) = False"
| "has_alpha (Rgba r g b a) = True"

text \<open>Equal up to integer rounding: every colour channel within one unit.\<close>

definition within_rounding :: "pixel \<Rightarrow> pixel \<Rightarrow> bool" where
  "within_rounding p q \<longleftrightarrow>
     \<bar>red p - red q\<bar> \<le> 1 \<and> \<bar>green p - green q\<bar> \<le> 1 \<and> \<bar>blue p - blue q\<bar> \<le> 1"

text \<open>The pixel at \<open>(x, y)\<close> of a computed image.\<close>

definition pixel_at :: "image result \<Rightarrow> int \<Rightarrow> int \<Rightarrow> pixel result" where
  "pixel_at r x y = ebind r (\<lambda>img. Inr (pixels img x y))"

subsection \<open>Translucent overlays (lines 44--56)\<close>

definition yellow_accent :: "imaging \<Rightarrow> int \<Rightarrow> image \<Rightarrow> image result" where
  "yellow_accent L size' img =
     ebind (Image_new L RGBA (size', size') (Rgba 0 0 0 0)) (\<lambda>yellow_overlay.
     ebind (int_floordiv size' 2) (\<lambda>half.
     ebind (draw_polygon L yellow_overlay
              [(PyInt 0, PyInt 0), (PyInt size', PyInt half), (PyInt 0, PyInt size')]
              (Rgba 255 217 61 76)) (\<lambda>yellow_overlay.
     ebind (alpha_composite L (convert img RGBA) yellow_overlay) (\<lambda>img.
     Inr (convert img RGB)))))"

definition purple_overlay :: "imaging \<Rightarrow> int \<Rightarrow> image \<Rightarrow> image result" where
  "purple_overlay L size' img =
     ebind (Image_new L RGBA (size', size') (Rgba 0 0 0 0)) (\<lambda>purple_overlay.
     ebind (draw_rectangle L purple_overlay (0, 0) (size', size')
              (Rgba 155 89 182 153)) (\<lambda>purple_overlay.
     ebind (alpha_composite L (convert img RGBA) purple_overlay) (\<lambda>img.
     Inr (convert img RGB))))"

subsection \<open>Foreground geometry (lines 58--114)\<close>

text \<open>Lines 59--62: \<open>(foreground_scale, translate_x, translate_y)\<close>.\<close>

definition foreground_transform :: "int \<Rightarrow> (pynum \<times> pynum \<times> pynum) result" where
  "foreground_transform size' =
     ebind (py_truediv (var (PyInt size')) (lit_int 108)) (\<lambda>scale.
     ebind (py_mul (lit_float (7 / 10)) (var scale)) (\<lambda>foreground_scale.
     ebind (py_mul (lit_float (162 / 10)) (var scale)) (\<lambda>translate_x.
     ebind (py_mul (lit_float (162 / 10)) (var scale)) (\<lambda>translate_y.
     Inr (foreground_scale, translate_x, translate_y)))))"

text \<open>Lines 70--72: \<open>(base_x, base_y, shield_size)\<close>.\<close>

definition shield_anchor :: "pynum \<times> pynum \<times> pynum \<Rightarrow> (int \<times> int \<times> int) result" where
  "shield_anchor t =
     (case t of (foreground_scale, translate_x, translate_y) \<Rightarrow>
     ebind (py_int (py_add (py_mul (lit_int 54) (var foreground_scale)) (var translate_x)))
       (\<lambda>base_x.
     ebind (py_int (py_add (py_mul (lit_int 54) (var foreground_scale)) (var translate_y)))
       (\<lambda>base_y.
     ebind (py_int (py_mul (lit_int 26) (var foreground_scale))) (\<lambda>shield_size.
     Inr (base_x, base_y, shield_size)))))"

text \<open>Lines 75--84.\<close>

definition shield_path :: "int \<Rightarrow> int \<Rightarrow> int \<Rightarrow> (pynum \<times> pynum) list result" where
  "shield_path base_x base_y shield_size = sequence
     [point (py_sub (var (PyInt base_x)) (var (PyInt shield_size)))
            (py_sub (var (PyInt base_y)) (py_mul (var (PyInt shield_size)) (lit_float (6 / 10)))),
      point (py_sub (var (PyInt base_x)) (py_mul (var (PyInt shield_size)) (lit_float (7 / 10))))
            (py_sub (var (PyInt base_y)) (py_mul (var (PyInt shield_size)) (lit_float (9 / 10)))),
      point (var (PyInt base_x))
            (py_sub (var (PyInt base_y)) (py_mul (var (PyInt shield_size)) (lit_float (11 / 10)))),
      point (py_add (var (PyInt base_x)) (py_mul (var (PyInt shield_size)) (lit_float (7 / 10))))
            (py_sub (var (PyInt base_y)) (py_mul (var (PyInt shield_size)) (lit_float (9 / 10)))),
      point (py_add (var (PyInt base_x)) (var (PyInt shield_size)))
            (py_sub (var (PyInt base_y)) (py_mul (var (PyInt shield_size)) (lit_float (6 / 10)))),
      point (py_add (var (PyInt base_x)) (var (PyInt shield_size)))
            (py_add (var (PyInt base_y)) (py_mul (var (PyInt shield_size)) (lit_float (3 / 10)))),
      point (var (PyInt base_x))
            (py_add (var (PyInt base_y)) (py_mul (var (PyInt shield_size)) (lit_float (8 / 10)))),
      point (py_sub (var (PyInt base_x)) (var (PyInt shield_size)))
            (py_add (var (PyInt base_y)) (py_mul (var (PyInt shield_size)) (lit_float (3 / 10))))]"

text \<open>Lines 88--89: each shield vertex pulled towards the anchor, as ints.\<close>

definition inner_shield ::
  "int \<Rightarrow> int \<Rightarrow> (pynum \<times> pynum) list \<Rightarrow> (pynum \<times> pynum) list result" where
  "inner_shield base_x base_y path = sequence (map (\<lambda>p.
     point
       (ebind (py_int (py_add (py_mul (var (fst p)) (lit_float (85 / 100)))
                              (py_mul (var (PyInt base_x)) (lit_float (15 / 100)))))
          (\<lambda>n. Inr (PyInt n)))
       (ebind (py_int (py_add (py_mul (var (snd p)) (lit_float (85 / 100)))
                              (py_mul (var (PyInt base_y)) (lit_float (15 / 100)))))
          (\<lambda>n. Inr (PyInt n)))) path)"

text \<open>Lines 94--101.\<close>

definition check_points :: "int \<Rightarrow> int \<Rightarrow> int \<Rightarrow> (pynum \<times> pynum) list result" where
  "check_points base_x base_y check_size = sequence
     [point (py_sub (var (PyInt base_x)) (var (PyInt check_size)))
            (var (PyInt base_y)),
      point (py_sub (var (PyInt base_x)) (py_mul (var (PyInt check_size)) (lit_float (3 / 10))))
            (py_add (var (PyInt base_y)) (py_mul (var (PyInt check_size)) (lit_float (5 / 10)))),
      point (py_add (var (PyInt base_x)) (py_mul (var (PyInt check_size)) (lit_float (8 / 10))))
            (py_sub (var (PyInt base_y)) (py_mul (var (PyInt check_size)) (lit_float (8 / 10)))),
      point (py_add (var (PyInt base_x)) (py_mul (var (PyInt check_size)) (lit_float (6 / 10))))
            (py_sub (var (PyInt base_y)) (var (PyInt check_size))),
      point (py_sub (var (PyInt base_x)) (py_mul (var (PyInt check_size)) (lit_float (3 / 10))))
            (py_add (var (PyInt base_y)) (py_mul (var (PyInt check_size)) (lit_float (2 / 10)))),
      point (py_sub (var (PyInt base_x)) (py_mul (var (PyInt check_size)) (lit_float (6 / 10))))
            (py_sub (var (PyInt base_y)) (py_mul (var (PyInt check_size)) (lit_float (2 / 10))))]"

text \<open>
  Lines 110--114, the body of the star loop for one \<open>i\<close>. The angle is computed and not
  used afterwards.
\<close>

definition star_point :: "int \<Rightarrow> int \<Rightarrow> int \<Rightarrow> int \<Rightarrow> (pynum \<times> pynum) result" where
  "star_point star_x star_y star_radius i =
     ebind (py_sub (py_truediv (py_mul (var (PyInt i)) (lit_float (314159 / 100000))) (lit_int 5))
                   (lit_float (15708 / 10000))) (\<lambda>angle.
     ebind (if i mod 2 = 0 then var (PyInt star_radius)
            else py_mul (var (PyInt star_radius)) (lit_float (4 / 10))) (\<lambda>radius.
     ebind (py_int (py_mul (py_mul (var radius) (if i mod 2 = 0 then lit_int 1 else lit_int (- 1)))
                           (lit_float (7 / 10)))) (\<lambda>dx.
     ebind (py_int (py_mul (py_mul (var radius) (if i mod 2 = 0 then lit_int 1 else lit_int (- 1)))
                           (lit_float (7 / 10)))) (\<lambda>dy.
     Inr (PyInt (star_x + dx), PyInt (star_y + dy))))))"

text \<open>
  The offset of a star vertex from the centre: what the body computes for \<open>x\<close> and for
  \<open>y\<close> once the angle is set aside. It depends on \<open>i\<close> through its parity only.
\<close>

definition star_offset :: "int \<Rightarrow> int \<Rightarrow> int result" where
  "star_offset star_radius i =
     ebind (if i mod 2 = 0 then var (PyInt star_radius)
            else py_mul (var (PyInt star_radius)) (lit_float (4 / 10))) (\<lambda>radius.
     py_int (py_mul (py_mul (var radius) (if i mod 2 = 0 then lit_int 1 else lit_int (- 1)))
                    (lit_float (7 / 10))))"

definition star_points :: "int \<Rightarrow> int \<Rightarrow> int \<Rightarrow> (pynum \<times> pynum) list result" where
  "star_points star_x star_y star_radius =
     sequence (map (star_point star_x star_y star_radius) (py_range 10))"

text \<open>
  A ten-vertex list that alternates between two points on the diagonal through
  \<open>(cx, cy)\<close>: what the star loop produces.
\<close>

definition star_of :: "int \<Rightarrow> int \<Rightarrow> int \<Rightarrow> int \<Rightarrow> (pynum \<times> pynum) list" where
  "star_of cx cy outer inner =
     [(PyInt (cx + outer), PyInt (cy + outer)), (PyInt (cx + inner), PyInt (cy + inner)),
      (PyInt (cx + outer), PyInt (cy + outer)), (PyInt (cx + inner), PyInt (cy + inner)),
      (PyInt (cx + outer), PyInt (cy + outer)), (PyInt (cx + inner), PyInt (cy + inner)),
      (PyInt (cx + outer), PyInt (cy + outer)), (PyInt (cx + inner), PyInt (cy + inner)),
      (PyInt (cx + outer), PyInt (cy + outer)), (PyInt (cx + inner), PyInt (cy + inner))]"

text \<open>The four polygons of the foreground, in painting order.\<close>

record glyphs =
  shield :: "(pynum \<times> pynum) list"
  highlight :: "(pynum \<times> pynum) list"
  checkmark :: "(pynum \<times> pynum) list"
  star :: "(pynum \<times> pynum) list"

definition foreground_glyphs :: "int \<Rightarrow> glyphs result" where
  "foreground_glyphs size' =
     ebind (foreground_transform size') (\<lambda>t.
     case t of (foreground_scale, translate_x, translate_y) \<Rightarrow>
     ebind (shield_anchor t) (\<lambda>a.
     case a of (base_x, base_y, shield_size) \<Rightarrow>
     ebind (shield_path base_x base_y shield_size) (\<lambda>shield_path.
     ebind (inner_shield base_x base_y shield_path) (\<lambda>inner_shield.
     ebind (py_int (py_mul (lit_int 12) (var foreground_scale))) (\<lambda>check_size.
     ebind (check_points base_x base_y check_size) (\<lambda>check_points.
     ebind (py_int (py_add (py_mul (py_sub (lit_int 54) (lit_int 34)) (var foreground_scale))
                           (var translate_y))) (\<lambda>star_y.
     ebind (py_int (py_mul (lit_int 6) (var foreground_scale))) (\<lambda>star_radius.
     ebind (star_points base_x star_y star_radius) (\<lambda>star_points.
     Inr \<lparr>shield = shield_path, highlight = inner_shield,
          checkmark = check_points, star = star_points\<rparr>)))))))))"

text \<open>The anchor \<open>(base_x, base_y)\<close> and the star polygon as functions of the size'.\<close>

definition anchor :: "int \<Rightarrow> (int \<times> int) result" where
  "anchor size' =
     ebind (foreground_transform size') (\<lambda>t.
     ebind (shield_anchor t) (\<lambda>a. Inr (fst a, fst (snd a))))"

definition star_glyph :: "int \<Rightarrow> (pynum \<times> pynum) list result" where
  "star_glyph size' = ebind (foreground_glyphs size') (\<lambda>g. Inr (star g))"

subsection \<open>The whole renderer (lines 24--120)\<close>

text \<open>
  The source interleaves the geometry with the four \<^verbatim>\<open>fg_draw.polygon\<close> calls; a polygon
  call raises only on fewer than two points, and every list has at least six, so computing
  the geometry first raises exactly when the source does.
\<close>

definition draw_foreground :: "imaging \<Rightarrow> int \<Rightarrow> image result" where
  "draw_foreground L size' =
     ebind (Image_new L RGBA (size', size') (Rgba 0 0 0 0)) (\<lambda>foreground.
     ebind (foreground_glyphs size') (\<lambda>g.
     ebind (draw_polygon L foreground (shield g) (Rgba 0xFF 0xFF 0xFF 255)) (\<lambda>foreground.
     ebind (draw_polygon L foreground (highlight g) (Rgba 0xE8 0xF4 0xFD 255)) (\<lambda>foreground.
     ebind (draw_polygon L foreground (checkmark g) (Rgba 0x27 0xAE 0x60 255)) (\<lambda>foreground.
     draw_polygon L foreground (star g) (Rgba 0xFF 0xD9 0x3D 255))))))"

definition create_play_store_icon :: "imaging \<Rightarrow> int \<Rightarrow> image result" where
  "create_play_store_icon L size' =
     ebind (background L size') (\<lambda>img.
     ebind (yellow_accent L size' img) (\<lambda>img.
     ebind (purple_overlay L size' img) (\<lambda>img.
     ebind (draw_foreground L size') (\<lambda>foreground.
     ebind (alpha_composite L (convert img RGBA) foreground) (\<lambda>img.
     Inr (convert img RGB))))))"


section \<open>The driver\<close>

text \<open>
  The world the script acts on: the directories and files that exist, the paths on
  which creating or writing fails (permissions, full disk), and the lines printed so far.
  A saved file is the PNG encoding of an image, kept as that image.
\<close>

datatype contents = PNG image

record world =
  dirs :: "string set"
  files :: "string \<rightharpoonup> contents"
  denied :: "string set"
  stdout :: "string list"

definition print :: "string \<Rightarrow> world \<Rightarrow> world" where
  "print line w = w\<lparr>stdout := stdout w @ [line]\<rparr>"

text \<open>\<^verbatim>\<open>os.makedirs(path, exist_ok=True)\<close> for a path of one component.\<close>

definition makedirs :: "string \<Rightarrow> world \<Rightarrow> unit result \<times> world" where
  "makedirs path w =
     (if path \<in> dirs w then (Inr (), w)
      else if path \<in> dom (files w) then (Inl FileExistsError, w)
      else if path \<in> denied w then (Inl PermissionError, w)
      else (Inr (), w\<lparr>dirs := insert path (dirs w)\<rparr>))"

definition path_join :: "string \<Rightarrow> string \<Rightarrow> string" where
  "path_join d f = d @ ''/'' @ f"

definition dirname :: "string \<Rightarrow> string" where
  "dirname p = rev (tl (dropWhile (\<lambda>c. c \<noteq> CHR ''/'') (rev p)))"

text \<open>\<^verbatim>\<open>icon.save(path, 'PNG', quality=100)\<close>: creates or overwrites the file.\<close>

definition save :: "image \<Rightarrow> string \<Rightarrow> world \<Rightarrow> unit result \<times> world" where
  "save icon path w =
     (if dirname path \<noteq> [] \<and> dirname path \<notin> dirs w then (Inl FileNotFoundError, w)
      else if path \<in> dirs w then (Inl IsADirectoryError, w)
      else if path \<in> denied w then (Inl PermissionError, w)
      else (Inr (), w\<lparr>files := (files w)(path \<mapsto> PNG icon)\<rparr>))"

text \<open>\<^verbatim>\<open>str(n)\<close> for the sizes printed by the f-strings.\<close>

fun digits :: "nat \<Rightarrow> string" where
  "digits n = (if n < 10 then [char_of (48 + n)]
               else digits (n div 10) @ [char_of (48 + n mod 10)])"

definition str :: "int \<Rightarrow> string" where
  "str n = (if n < 0 then CHR ''-'' # digits (nat (- n)) else digits (nat n))"

text \<open>A statement that acts on the world; the next one runs unless it raised.\<close>

definition and_then ::
  "unit result \<times> world \<Rightarrow> (world \<Rightarrow> unit result \<times> world) \<Rightarrow> unit result \<times> world" where
  "and_then r next = (case r of (Inl e, w) \<Rightarrow> (Inl e, w) | (Inr _, w) \<Rightarrow> next w)"

text \<open>The loop of \<^verbatim>\<open>main\<close> over \<^verbatim>\<open>sizes.items()\<close>, in insertion order.\<close>

fun generate :: "imaging \<Rightarrow> string \<Rightarrow> (int \<times> string) list \<Rightarrow> world \<Rightarrow> unit result \<times> world"
  where
  "generate L output_dir [] w = (Inr (), w)"
| "generate L output_dir ((size', filename) # rest) w =
     (let w = print (''Generating '' @ str size' @ ''x'' @ str size' @ '' icon...'') w
      in case create_play_store_icon L size' of
           Inl e \<Rightarrow> (Inl e, w)
         | Inr icon \<Rightarrow>
             and_then (save icon (path_join output_dir filename) w) (\<lambda>w.
             generate L output_dir rest
               (print ([CHR 0xE2, CHR 0x9C, CHR 0x93] @ '' Saved: ''
                       @ path_join output_dir filename) w)))"

definition sizes :: "(int \<times> string) list" where
  "sizes = [(512, ''chorequest_icon_512x512.png''), (1024, ''chorequest_icon_1024x1024.png'')]"

definition main :: "imaging \<Rightarrow> world \<Rightarrow> unit result \<times> world" where
  "main L w =
     (let output_dir = ''play_store_icons''
      in and_then (makedirs output_dir w) (\<lambda>w.
         and_then (generate L output_dir sizes
                    (print [] (print ([CHR 0xF0, CHR 0x9F, CHR 0x8E, CHR 0xAE]
                                      @ '' Generating ChoreQuest Play Store Icons...'') w)))
           (\<lambda>w.
         let w = print [] w;
             w = print ([CHR 0xE2, CHR 0x9C, CHR 0x85] @ '' Icon generation complete!'') w;
             w = print ([CHR 0xF0, CHR 0x9F, CHR 0x93, CHR 0x81]
                        @ '' Icons saved in: '' @ output_dir @ ''/'') w;
             w = print [] w;
             w = print (''For Play Store submission, use: chorequest_icon_512x512.png'') w
         in (Inr (), w))))"

text \<open>
  The script run as a program (lines 16--22 and 148--149). Each of the two imports
  either succeeds or raises; the guard catches \<^verbatim>\<open>ImportError\<close> only, prints the two
  lines and calls \<^verbatim>\<open>sys.exit(1)\<close>. Any other exception of an import (such as the
  \<^verbatim>\<open>OSError\<close> of a native library that cannot be loaded), like an exception of
  \<^verbatim>\<open>main\<close>, reaches the top level: the program ends with status 1 and a traceback
  on the error stream, nothing on the standard output.
\<close>

datatype import_result = Imported | ImportRaises error

record packages =
  import_PIL :: import_result
  import_cairosvg :: import_result

definition import_guard ::
  "import_result \<Rightarrow> world \<Rightarrow> (world \<Rightarrow> int \<times> world) \<Rightarrow> int \<times> world" where
  "import_guard r w continue =
     (case r of
        Imported \<Rightarrow> continue w
      | ImportRaises e \<Rightarrow>
          if e = ImportError
          then (1, print ''Install with: pip install cairosvg pillow''
                     (print ''Error: Missing required packages.'' w))
          else (1, w))"

definition script :: "packages \<Rightarrow> imaging \<Rightarrow> world \<Rightarrow> int \<times> world" where
  "script env L w =
     import_guard (import_PIL env) w (\<lambda>w.
     import_guard (import_cairosvg env) w (\<lambda>w.
     case main L w of
       (Inl e, w') \<Rightarrow> (1, w')
     | (Inr _, w') \<Rightarrow> (0, w')))"

text \<open>The exception of the first import that fails, if one does.\<close>

definition import_failure :: "packages \<Rightarrow> error option" where
  "import_failure env =
     (case import_PIL env of
        ImportRaises e \<Rightarrow> Some e
      | Imported \<Rightarrow> (case import_cairosvg env of ImportRaises e \<Rightarrow> Some e | Imported \<Rightarrow> None))"


section \<open>A concrete library and world\<close>

text \<open>
  One instance of the library's parameters, for running the model on concrete inputs:
  rectangles include their second corner, the rasteriser covers the pixels that are
  vertices of the polygon, blending is the integer ``over'' operator, and images of up to
  65535 pixels a side can be stored.
\<close>

fun over :: "pixel \<Rightarrow> pixel \<Rightarrow> pixel" where
  "over (Rgba r g b a) (Rgba r' g' b' a') =
     Rgba ((r' * a' + r * (255 - a')) div 255) ((g' * a' + g * (255 - a')) div 255)
          ((b' * a' + b * (255 - a')) div 255) (a' + a * (255 - a') div 255)"
| "over dst src = src"

definition vertex_imaging :: imaging where
  "vertex_imaging =
     \<lparr>rectangle_inclusive = True,
      polygon_covers = (\<lambda>pts x y. (PyInt x, PyInt y) \<in> set pts),
      blend_over = over,
      max_side = 65535\<rparr>"

definition empty_world :: world where
  "empty_world = \<lparr>dirs = {}, files = Map.empty, denied = {}, stdout = []\<rparr>"

section \<open>Magnitudes\<close>

text \<open>
  A number is \<open>bounded k\<close> when it is an int or a finite float of magnitude at most
  \<open>2 ^ k\<close>; an expression is \<open>ok k\<close> when it evaluates, without raising, to such a number.
\<close>

definition bounded :: "nat \<Rightarrow> pynum \<Rightarrow> bool" where
  "bounded k v = (case v of PyInt n \<Rightarrow> \<bar>n\<bar> \<le> 2 ^ k
                  | PyFloat x \<Rightarrow> (case x of Fin r \<Rightarrow> \<bar>r\<bar> \<le> 2 ^ k | _ \<Rightarrow> False))"

definition ok :: "nat \<Rightarrow> pynum result \<Rightarrow> bool" where
  "ok k e = (\<exists>v. e = Inr v \<and> bounded k v)"

text \<open>The same for a point and for a list of points built by \<open>sequence\<close>.\<close>

definition bounded_point :: "nat \<Rightarrow> pynum \<times> pynum \<Rightarrow> bool" where
  "bounded_point k p \<longleftrightarrow> bounded k (fst p) \<and> bounded k (snd p)"

definition okp :: "nat \<Rightarrow> (pynum \<times> pynum) result \<Rightarrow> bool" where
  "okp k m = (\<exists>p. m = Inr p \<and> bounded_point k p)"

definition oks :: "nat \<Rightarrow> (pynum \<times> pynum) result list \<Rightarrow> bool" where
  "oks k ms = (\<exists>ps. sequence ms = Inr ps \<and> length ps = length ms
                 \<and> list_all (bounded_point k) ps)"

section \<open>Properties of the float model\<close>

lemma ilog2_bounds:
  assumes "0 < x"
  shows "2 powi ilog2 x \<le> x" and "x < 2 powi (ilog2 x + 1)"
proof -
  obtain p q where pq: "quotient_of x = (p, q)" by (cases "quotient_of x")
  have q: "0 < q" using pq by (rule quotient_of_denom_pos)
  have x: "x = of_int p / of_int q" using pq by (rule quotient_of_div)
  have p: "0 < p" using assms q x by (simp add: zero_less_divide_iff)
  define bp where "bp = bitlen p"
  define bq where "bq = bitlen q"
  have bp1: "1 \<le> bp" using p bitlen_eq_zero_iff[of p] bitlen_nonneg[of p] by (simp add: bp_def)
  have bq1: "1 \<le> bq" using q bitlen_eq_zero_iff[of q] bitlen_nonneg[of q] by (simp add: bq_def)
  have "(2::int) ^ nat (bp - 1) \<le> p" "p < 2 ^ nat bp"
    using bitlen_bounds[OF p] by (simp_all add: bp_def)
  then have "(of_int ((2::int) ^ nat (bp - 1)) :: rat) \<le> of_int p" "(of_int p :: rat) < of_int (2 ^ nat bp)"
    by (simp_all only: of_int_le_iff of_int_less_iff)
  then have P: "(2::rat) powi (bp - 1) \<le> of_int p" "(of_int p :: rat) < 2 powi bp"
    using bp1 by (simp_all add: power_int_nonneg_exp)
  have "(2::int) ^ nat (bq - 1) \<le> q" "q < 2 ^ nat bq"
    using bitlen_bounds[OF q] by (simp_all add: bq_def)
  then have "(of_int ((2::int) ^ nat (bq - 1)) :: rat) \<le> of_int q" "(of_int q :: rat) < of_int (2 ^ nat bq)"
    by (simp_all only: of_int_le_iff of_int_less_iff)
  then have Q: "(2::rat) powi (bq - 1) \<le> of_int q" "(of_int q :: rat) < 2 powi bq"
    using bq1 by (simp_all add: power_int_nonneg_exp)
  have qpos: "(0::rat) < of_int q" using q by simp
  have lo: "(2::rat) powi (bp - bq - 1) \<le> x"
  proof -
    have "(2::rat) powi (bp - bq - 1) * of_int q \<le> 2 powi (bp - bq - 1) * 2 powi bq"
      using Q(2) by (intro mult_left_mono) simp_all
    also have "\<dots> = 2 powi (bp - 1)" by (simp add: power_int_add[symmetric])
    also have "\<dots> \<le> of_int p" by (rule P(1))
    finally show ?thesis using qpos by (simp add: x pos_le_divide_eq)
  qed
  have hi: "x < (2::rat) powi (bp - bq + 1)"
  proof -
    have "of_int p < (2::rat) powi bp" by (rule P(2))
    also have "\<dots> = 2 powi (bp - bq + 1) * 2 powi (bq - 1)" by (simp add: power_int_add[symmetric])
    also have "\<dots> \<le> 2 powi (bp - bq + 1) * of_int q"
      using Q(1) by (intro mult_left_mono) simp_all
    finally show ?thesis using qpos by (simp add: x pos_divide_less_eq)
  qed
  have il: "ilog2 x = (if 2 powi (bp - bq) \<le> x then bp - bq else bp - bq - 1)"
    by (simp add: ilog2_def pq bp_def bq_def Let_def)
  show "2 powi ilog2 x \<le> x" using lo by (simp add: il)
  show "x < 2 powi (ilog2 x + 1)" using hi by (auto simp add: il not_le)
qed


lemma pow2_less_cancel:
  assumes "(2::rat) powi a < 2 powi b"
  shows "a < b"
proof (rule ccontr)
  assume "\<not> a < b"
  then have "b \<le> a" by simp
  then have "(2::rat) powi b \<le> 2 powi a" by (intro power_int_increasing) simp_all
  then show False using assms by simp
qed

lemma ilog2_unique:
  assumes "2 powi e \<le> x" "x < 2 powi (e + 1)"
  shows "ilog2 x = e"
proof -
  have x: "0 < x" using assms(1) by (rule less_le_trans[rotated]) simp
  have a: "(2::rat) powi ilog2 x < 2 powi (e + 1)"
    using ilog2_bounds(1)[OF x] assms(2) by simp
  have b: "(2::rat) powi e < 2 powi (ilog2 x + 1)"
    using ilog2_bounds(2)[OF x] assms(1) by simp
  have "ilog2 x < e + 1" using a by (rule pow2_less_cancel)
  moreover have "e < ilog2 x + 1" using b by (rule pow2_less_cancel)
  ultimately show ?thesis by simp
qed

lemma ilog2_mono:
  assumes "0 < x" "x \<le> y"
  shows "ilog2 x \<le> ilog2 y"
proof -
  have y: "0 < y" using assms by simp
  have "(2::rat) powi ilog2 x < 2 powi (ilog2 y + 1)"
    using ilog2_bounds(1)[OF assms(1)] ilog2_bounds(2)[OF y] assms(2) by simp
  then have "ilog2 x < ilog2 y + 1" by (rule pow2_less_cancel)
  then show ?thesis by simp
qed

lemma round_half_even_of_int [simp]: "round_half_even (of_int n) = n"
  by (simp add: round_half_even_def)

lemma round_half_even_cases:
  obtains f where "\<lfloor>x\<rfloor> = f" "of_int f \<le> x" "x < of_int f + 1"
    "round_half_even x = (if x - of_int f < 1 / 2 then f else if 1 / 2 < x - of_int f then f + 1
         else if even f then f else f + 1)"
proof -
  have "of_int \<lfloor>x\<rfloor> \<le> x" "x < of_int \<lfloor>x\<rfloor> + 1" by linarith+
  then show ?thesis using that[of "\<lfloor>x\<rfloor>"] by (simp add: round_half_even_def Let_def)
qed

lemma round_half_even_lower: "x - 1 / 2 \<le> of_int (round_half_even x)"
proof -
  obtain f where f: "of_int f \<le> x" "x < of_int f + 1"
    "round_half_even x = (if x - of_int f < 1 / 2 then f else if 1 / 2 < x - of_int f then f + 1
         else if even f then f else f + 1)" by (rule round_half_even_cases)
  show ?thesis using f(1,2) unfolding f(3) by (auto simp: not_less)
qed

lemma round_half_even_upper: "of_int (round_half_even x) \<le> x + 1 / 2"
proof -
  obtain f where f: "of_int f \<le> x" "x < of_int f + 1"
    "round_half_even x = (if x - of_int f < 1 / 2 then f else if 1 / 2 < x - of_int f then f + 1
         else if even f then f else f + 1)" by (rule round_half_even_cases)
  show ?thesis using f(1,2) unfolding f(3) by (auto simp: not_less)
qed

lemma round_half_even_mono:
  assumes "x \<le> y"
  shows "round_half_even x \<le> round_half_even y"
proof (cases "\<lfloor>x\<rfloor> = \<lfloor>y\<rfloor>")
  case True
  then show ?thesis using assms
    unfolding round_half_even_def Let_def by auto
next
  case False
  then have lt: "\<lfloor>x\<rfloor> + 1 \<le> \<lfloor>y\<rfloor>" using floor_mono[OF assms] by simp
  have "round_half_even x \<le> \<lfloor>x\<rfloor> + 1" unfolding round_half_even_def Let_def by auto
  moreover have "\<lfloor>y\<rfloor> \<le> round_half_even y" unfolding round_half_even_def Let_def by auto
  ultimately show ?thesis using lt by simp
qed

lemma round_half_even_uminus: "round_half_even (- x) = - round_half_even x"
proof (cases "x = of_int \<lfloor>x\<rfloor>")
  case True
  then obtain n where "x = of_int n" ..
  then show ?thesis by (simp flip: of_int_minus)
next
  case False
  then have c: "\<lceil>x\<rceil> = \<lfloor>x\<rfloor> + 1" by (simp add: ceiling_altdef)
  have f: "\<lfloor>- x\<rfloor> = - \<lfloor>x\<rfloor> - 1" using c by (simp add: ceiling_def)
  show ?thesis
    unfolding round_half_even_def Let_def f
    using False floor_correct[of x] by (auto simp: not_less field_simps)
qed


lemma pow2_add: "(2::rat) powi a * 2 powi b = 2 powi (a + b)"
  by (simp add: power_int_add)

lemma pow2_diff: "(2::rat) powi a / 2 powi b = 2 powi (a - b)"
  by (simp add: power_int_diff)

lemma round_double_eq:
  "x \<noteq> 0 \<Longrightarrow> round_double x =
     of_int (round_half_even (x / 2 powi (binade x - 52))) * 2 powi (binade x - 52)"
  by (simp add: round_double_def binade_def Let_def)

lemma round_double_0 [simp]: "round_double 0 = 0"
  by (simp add: round_double_def)

lemma round_double_uminus: "round_double (- x) = - round_double x"
proof (cases "x = 0")
  case True then show ?thesis by simp
next
  case False
  have b: "binade (- x) = binade x" by (simp add: binade_def)
  show ?thesis using False
    by (simp add: round_double_eq b round_half_even_uminus)
qed

lemma binade_mono:
  assumes "0 < x" "x \<le> y"
  shows "binade x \<le> binade y"
  using ilog2_mono[OF assms] assms by (simp add: binade_def)

lemma binade_upper:
  assumes "0 < x"
  shows "x < 2 powi (binade x + 1)"
proof -
  have "x < 2 powi (ilog2 x + 1)" by (rule ilog2_bounds(2)[OF assms])
  also have "\<dots> \<le> 2 powi (binade x + 1)"
    using assms by (intro power_int_increasing) (simp_all add: binade_def)
  finally show ?thesis .
qed

lemma round_double_nonneg:
  assumes "0 \<le> x"
  shows "0 \<le> round_double x"
proof (cases "x = 0")
  case True then show ?thesis by simp
next
  case False
  have "0 \<le> x / 2 powi (binade x - 52)" using assms by simp
  then have "round_half_even 0 \<le> round_half_even (x / 2 powi (binade x - 52))"
    by (rule round_half_even_mono)
  then have "0 \<le> round_half_even (x / 2 powi (binade x - 52))"
    using round_half_even_of_int[of 0] by simp
  then show ?thesis using False by (simp add: round_double_eq)
qed

lemma round_double_upper:
  assumes "0 < x"
  shows "round_double x \<le> 2 powi (binade x + 1)"
proof -
  let ?u = "(2::rat) powi (binade x - 52)"
  have u: "0 < ?u" by simp
  have rd: "round_double x = of_int (round_half_even (x / ?u)) * ?u"
    using assms by (simp add: round_double_eq)
  have "x / ?u \<le> 2 powi (binade x + 1) / ?u"
    using binade_upper[OF assms] by (intro divide_right_mono) simp_all
  also have "\<dots> = 2 powi 53" by (simp flip: power_int_diff)
  also have "\<dots> = of_int (2 ^ 53)" by simp
  finally have "round_half_even (x / ?u) \<le> round_half_even (of_int (2 ^ 53))"
    by (rule round_half_even_mono)
  then have "round_half_even (x / ?u) \<le> 2 ^ 53" by (simp only: round_half_even_of_int)
  then have "(of_int (round_half_even (x / ?u)) :: rat) \<le> of_int (2 ^ 53)"
    by (simp only: of_int_le_iff)
  then have "of_int (round_half_even (x / ?u)) * ?u \<le> of_int (2 ^ 53) * ?u"
    using u by (simp only: mult_le_cancel_right_pos)
  also have "of_int (2 ^ 53) * ?u = 2 powi 53 * ?u" by simp
  also have "\<dots> = 2 powi (binade x + 1)" by (subst pow2_add) (simp add: algebra_simps)
  finally show ?thesis unfolding rd .
qed

lemma round_double_lower:
  assumes "0 < x" "- 1022 \<le> ilog2 x"
  shows "2 powi (binade x) \<le> round_double x"
proof -
  let ?u = "(2::rat) powi (binade x - 52)"
  have u: "0 < ?u" by simp
  have rd: "round_double x = of_int (round_half_even (x / ?u)) * ?u"
    using assms by (simp add: round_double_eq)
  have b: "binade x = ilog2 x" using assms by (simp add: binade_def)
  have "of_int (2 ^ 52) = (2::rat) powi 52" by simp
  also have "\<dots> = 2 powi (binade x) / ?u" by (simp flip: power_int_diff)
  also have "\<dots> \<le> x / ?u"
    using ilog2_bounds(1)[OF assms(1)] by (intro divide_right_mono) (simp_all add: b)
  finally have "round_half_even (of_int (2 ^ 52)) \<le> round_half_even (x / ?u)"
    by (rule round_half_even_mono)
  then have "2 ^ 52 \<le> round_half_even (x / ?u)" by (simp only: round_half_even_of_int)
  then have "(of_int (2 ^ 52) :: rat) \<le> of_int (round_half_even (x / ?u))"
    by (simp only: of_int_le_iff)
  then have le: "of_int (2 ^ 52) * ?u \<le> of_int (round_half_even (x / ?u)) * ?u"
    using u by (simp only: mult_le_cancel_right_pos)
  have "2 powi (binade x) = 2 powi 52 * ?u" by (subst pow2_add) (simp add: algebra_simps)
  also have "\<dots> = of_int (2 ^ 52) * ?u" by simp
  also note le
  finally show ?thesis unfolding rd .
qed

lemma round_double_mono_pos:
  assumes "0 < x" "x \<le> y"
  shows "round_double x \<le> round_double y"
proof (cases "binade x = binade y")
  case True
  let ?u = "(2::rat) powi (binade y - 52)"
  have u: "0 < ?u" by simp
  have "x / ?u \<le> y / ?u" using assms by (intro divide_right_mono) simp_all
  then have "round_half_even (x / ?u) \<le> round_half_even (y / ?u)"
    by (rule round_half_even_mono)
  then have "(of_int (round_half_even (x / ?u)) :: rat) * ?u \<le> of_int (round_half_even (y / ?u)) * ?u"
    using u by (simp only: mult_le_cancel_right_pos of_int_le_iff)
  then show ?thesis using assms True by (simp add: round_double_eq)
next
  case False
  have y: "0 < y" using assms by simp
  have lt: "binade x + 1 \<le> binade y" using binade_mono[OF assms] False by simp
  then have "- 1022 < binade y" by (simp add: binade_def)
  then have n: "- 1022 \<le> ilog2 y" using y by (simp add: binade_def max_def split: if_splits)
  have "round_double x \<le> 2 powi (binade x + 1)" by (rule round_double_upper[OF assms(1)])
  also have "\<dots> \<le> 2 powi (binade y)" using lt by (intro power_int_increasing) simp_all
  also have "\<dots> \<le> round_double y" by (rule round_double_lower[OF y n])
  finally show ?thesis .
qed

lemma round_double_mono:
  assumes "x \<le> y"
  shows "round_double x \<le> round_double y"
proof -
  consider "0 < x" | "x \<le> 0" "0 \<le> y" | "y < 0" by linarith
  then show ?thesis
  proof cases
    case 1 then show ?thesis using assms by (rule round_double_mono_pos)
  next
    case 2
    have "0 \<le> round_double (- x)" using 2 by (intro round_double_nonneg) simp
    then have "round_double x \<le> 0" by (simp add: round_double_uminus)
    also have "0 \<le> round_double y" using 2 by (intro round_double_nonneg)
    finally show ?thesis .
  next
    case 3
    have "round_double (- y) \<le> round_double (- x)"
      using 3 assms by (intro round_double_mono_pos) simp_all
    then show ?thesis by (simp add: round_double_uminus)
  qed
qed


lemma round_double_exact:
  assumes "x \<noteq> 0" "x / 2 powi (binade x - 52) = of_int m"
  shows "round_double x = x"
proof -
  have "round_double x = of_int m * 2 powi (binade x - 52)"
    using assms(1) by (simp add: round_double_eq assms(2))
  also have "\<dots> = x / 2 powi (binade x - 52) * 2 powi (binade x - 52)"
    by (simp only: assms(2))
  also have "\<dots> = x" by simp
  finally show ?thesis .
qed

lemma ilog2_pow2 [simp]: "ilog2 (2 powi k) = k"
  by (rule ilog2_unique) (simp_all add: power_int_strict_increasing)

lemma round_double_pow2:
  assumes "- 1022 \<le> k"
  shows "round_double (2 powi k) = 2 powi k"
proof (rule round_double_exact)
  show "(2::rat) powi k \<noteq> 0" by simp
  have b: "binade (2 powi k) = k" using assms by (simp add: binade_def)
  have "(2::rat) powi k / 2 powi (binade (2 powi k) - 52) = 2 powi 52"
    unfolding b by (subst pow2_diff) simp
  then show "(2::rat) powi k / 2 powi (binade (2 powi k) - 52) = of_int (2 ^ 52)" by simp
qed

lemma round_double_of_int:
  assumes "\<bar>n\<bar> \<le> 2 ^ 53"
  shows "round_double (of_int n) = of_int n"
proof -
  have pos: "round_double (of_int m) = of_int m" if m: "0 < m" "m \<le> 2 ^ 53" for m :: int
  proof -
    let ?x = "of_int m :: rat"
    have x: "0 < ?x" using m by simp
    define e where "e = ilog2 ?x"
    have "ilog2 (2 powi 0) \<le> ilog2 ?x" using m by (intro ilog2_mono) simp_all
    then have e0: "0 \<le> e" unfolding e_def by (simp only: ilog2_pow2)
    have "?x \<le> of_int (2 ^ 53)" using m(2) by (simp only: of_int_le_iff)
    then have x53: "?x \<le> 2 powi 53" by simp
    then have "ilog2 ?x \<le> ilog2 (2 powi 53)" using x by (intro ilog2_mono)
    then have e53: "e \<le> 53" unfolding e_def by (simp only: ilog2_pow2)
    have b: "binade ?x = e" using e0 x by (simp add: binade_def e_def)
    show ?thesis
    proof (cases "e \<le> 52")
      case True
      have "?x / 2 powi (e - 52) = ?x * 2 powi (52 - e)"
        by (simp add: power_int_diff)
      also have "\<dots> = ?x * 2 ^ nat (52 - e)" using True by (simp add: power_int_nonneg_exp)
      also have "\<dots> = of_int (m * 2 ^ nat (52 - e))" by simp
      finally show ?thesis using x by (intro round_double_exact[of _ "m * 2 ^ nat (52 - e)"]) (simp_all add: b)
    next
      case False
      then have e: "e = 53" using e53 by simp
      have "2 powi 53 \<le> ?x" using ilog2_bounds(1)[OF x] unfolding e_def[symmetric] e .
      then have xe: "?x = 2 powi 53" using x53 by simp
      show ?thesis unfolding xe by (rule round_double_pow2) simp
    qed
  qed
  consider "n = 0" | "0 < n" | "n < 0" by linarith
  then show ?thesis
  proof cases
    case 1 then show ?thesis by simp
  next
    case 2 then show ?thesis using assms by (intro pos) simp_all
  next
    case 3
    then have "round_double (of_int (- n)) = of_int (- n)" using assms by (intro pos) simp_all
    then show ?thesis by (simp add: round_double_uminus)
  qed
qed

lemma round_double_abs_le_pow2:
  assumes "\<bar>x\<bar> \<le> 2 ^ k"
  shows "\<bar>round_double x\<bar> \<le> 2 ^ k"
proof -
  have p: "round_double (2 ^ k) = 2 ^ k"
    using round_double_pow2[of "int k"] by simp
  have "round_double x \<le> round_double (2 ^ k)" using assms by (intro round_double_mono) simp
  moreover have "round_double (- (2 ^ k)) \<le> round_double x" using assms by (intro round_double_mono) simp
  ultimately show ?thesis by (simp add: round_double_uminus p abs_le_iff)
qed

lemma round_double_error_pos:
  assumes "2 powi (- 1022) \<le> x"
  shows "\<bar>round_double x - x\<bar> \<le> x / 2 ^ 53"
proof -
  have x: "0 < x" using assms by (rule less_le_trans[rotated]) simp
  have "ilog2 (2 powi (- 1022)) \<le> ilog2 x" using assms by (intro ilog2_mono) simp_all
  then have n: "- 1022 \<le> ilog2 x" by (simp only: ilog2_pow2)
  then have b: "binade x = ilog2 x" using x by (simp add: binade_def)
  let ?u = "(2::rat) powi (ilog2 x - 52)"
  let ?r = "of_int (round_half_even (x / ?u)) :: rat"
  have u: "0 < ?u" by simp
  have rd: "round_double x = ?r * ?u" using x by (simp add: round_double_eq b)
  have "\<bar>?r - x / ?u\<bar> \<le> 1 / 2"
    using round_half_even_lower[of "x / ?u"] round_half_even_upper[of "x / ?u"]
    by linarith
  then have "\<bar>?r - x / ?u\<bar> * ?u \<le> 1 / 2 * ?u" using u by (simp only: mult_le_cancel_right_pos)
  moreover have "\<bar>?r - x / ?u\<bar> * ?u = \<bar>?r * ?u - x\<bar>"
  proof -
    have "\<bar>?r - x / ?u\<bar> * ?u = \<bar>(?r - x / ?u) * ?u\<bar>" by (simp add: abs_mult)
    also have "(?r - x / ?u) * ?u = ?r * ?u - x" by (simp add: left_diff_distrib)
    finally show ?thesis .
  qed
  moreover have "1 / 2 * ?u = 2 powi (ilog2 x) / 2 ^ 53"
  proof -
    have "2 powi (ilog2 x) / 2 ^ 53 = (2::rat) powi (ilog2 x) / 2 powi 53" by simp
    also have "\<dots> = 2 powi (ilog2 x - 53)" by (rule pow2_diff)
    also have "\<dots> = 2 powi (- 1) * ?u" by (subst pow2_add) simp
    finally show ?thesis by simp
  qed
  moreover have "2 powi (ilog2 x) / 2 ^ 53 \<le> x / 2 ^ 53"
    using ilog2_bounds(1)[OF x] by (intro divide_right_mono) simp_all
  ultimately show ?thesis unfolding rd by simp
qed

lemma round_double_error:
  assumes "2 powi (- 1022) \<le> \<bar>x\<bar>"
  shows "\<bar>round_double x - x\<bar> \<le> \<bar>x\<bar> / 2 ^ 53"
proof (cases "0 \<le> x")
  case True
  then show ?thesis using round_double_error_pos[of x] assms by simp
next
  case False
  then have "\<bar>round_double (- x) - (- x)\<bar> \<le> (- x) / 2 ^ 53"
    using assms by (intro round_double_error_pos) simp
  then show ?thesis using False by (simp add: round_double_uminus abs_minus_commute)
qed


section \<open>Evaluating expressions within the float range\<close>

lemma ebind_Inr [simp]: "ebind (Inr v) f = f v"
  by (simp add: ebind_def)

lemma ebind_Inl [simp]: "ebind (Inl e) f = Inl e"
  by (simp add: ebind_def)

lemma to_double_Fin:
  assumes "\<bar>x\<bar> \<le> 2 ^ k" "k \<le> 1023"
  shows "to_double x = Fin (round_double x)"
proof (cases "round_double x = 0")
  case True then show ?thesis by (simp add: to_double_def)
next
  case False
  have "\<bar>round_double x\<bar> \<le> 2 ^ k" using assms(1) by (rule round_double_abs_le_pow2)
  also have "(2::rat) ^ k \<le> 2 ^ 1023" using assms(2) by (intro power_increasing) simp_all
  also have "(2::rat) ^ 1023 = 2 powi 1023" by simp
  finally have "ilog2 \<bar>round_double x\<bar> \<le> ilog2 (2 powi 1023)"
    using False by (intro ilog2_mono) simp_all
  then have "ilog2 \<bar>round_double x\<bar> \<le> 1023" by (simp only: ilog2_pow2)
  then show ?thesis by (simp add: to_double_def Let_def)
qed

lemma bounded_PyInt [simp]: "bounded k (PyInt n) \<longleftrightarrow> \<bar>n\<bar> \<le> 2 ^ k"
  by (simp add: bounded_def)

lemma bounded_Fin [simp]: "bounded k (PyFloat (Fin r)) \<longleftrightarrow> \<bar>r\<bar> \<le> 2 ^ k"
  by (simp add: bounded_def)

lemma as_float_bounded:
  assumes "bounded k v" "k \<le> 1023"
  obtains r where "as_float v = Inr (Fin r)" "\<bar>r\<bar> \<le> 2 ^ k"
proof (cases v)
  case (PyInt n)
  then have "\<bar>n\<bar> \<le> 2 ^ k" using assms(1) by simp
  then have "(of_int \<bar>n\<bar> :: rat) \<le> of_int (2 ^ k)" by (simp only: of_int_le_iff)
  then have n: "\<bar>of_int n :: rat\<bar> \<le> 2 ^ k" by simp
  have "as_float v = Inr (Fin (round_double (of_int n)))"
    by (simp add: PyInt float_of_int_def to_double_Fin[OF n assms(2)])
  moreover have "\<bar>round_double (of_int n)\<bar> \<le> 2 ^ k" using n by (rule round_double_abs_le_pow2)
  ultimately show ?thesis by (rule that)
next
  case (PyFloat x)
  then show ?thesis using assms(1) that by (cases x) (simp_all add: bounded_def)
qed

lemma num_mul_float:
  "\<not> (\<exists>a b. x = PyInt a \<and> y = PyInt b) \<Longrightarrow>
   num_mul x y = ebind (as_float x) (\<lambda>x. ebind (as_float y) (\<lambda>y. Inr (PyFloat (fmul x y))))"
  by (cases x; cases y) simp_all

lemma num_add_float:
  "\<not> (\<exists>a b. x = PyInt a \<and> y = PyInt b) \<Longrightarrow>
   num_add x y = ebind (as_float x) (\<lambda>x. ebind (as_float y) (\<lambda>y. Inr (PyFloat (fadd x y))))"
  by (cases x; cases y) simp_all

lemma num_sub_float:
  "\<not> (\<exists>a b. x = PyInt a \<and> y = PyInt b) \<Longrightarrow>
   num_sub x y = ebind (as_float x) (\<lambda>x. ebind (as_float y) (\<lambda>y. Inr (PyFloat (fsub x y))))"
  by (cases x; cases y) simp_all

lemma pow2_le_1023: "k \<le> 1023 \<Longrightarrow> (2::rat) ^ k \<le> 2 ^ 1023"
  by (intro power_increasing) simp_all

lemma num_mul_bounded:
  assumes "bounded a x" "bounded b y" "a + b \<le> 1023"
  shows "\<exists>z. num_mul x y = Inr z \<and> bounded (a + b) z"
proof (cases "\<exists>m n. x = PyInt m \<and> y = PyInt n")
  case True
  then obtain m n where xy: "x = PyInt m" "y = PyInt n" by blast
  have "\<bar>m * n\<bar> = \<bar>m\<bar> * \<bar>n\<bar>" by (simp add: abs_mult)
  also have "\<dots> \<le> 2 ^ a * 2 ^ b" using assms(1,2) xy by (intro mult_mono) simp_all
  finally show ?thesis by (simp add: xy power_add)
next
  case False
  obtain r where r: "as_float x = Inr (Fin r)" "\<bar>r\<bar> \<le> 2 ^ a"
    using assms by (auto elim!: as_float_bounded[of a x])
  obtain s where s: "as_float y = Inr (Fin s)" "\<bar>s\<bar> \<le> 2 ^ b"
    using assms by (auto elim!: as_float_bounded[of b y])
  have "\<bar>r * s\<bar> = \<bar>r\<bar> * \<bar>s\<bar>" by (simp add: abs_mult)
  also have "\<dots> \<le> 2 ^ a * 2 ^ b" using r(2) s(2) by (intro mult_mono) simp_all
  finally have rs: "\<bar>r * s\<bar> \<le> 2 ^ (a + b)" by (simp add: power_add)
  have "num_mul x y = Inr (PyFloat (Fin (round_double (r * s))))"
    by (simp add: num_mul_float[OF False] r s to_double_Fin[OF rs assms(3)])
  moreover have "\<bar>round_double (r * s)\<bar> \<le> 2 ^ (a + b)" using rs by (rule round_double_abs_le_pow2)
  ultimately show ?thesis by simp
qed

lemma abs_add_le_pow2:
  fixes r s :: "'a :: linordered_idom"
  assumes "\<bar>r\<bar> \<le> 2 ^ a" "\<bar>s\<bar> \<le> 2 ^ b"
  shows "\<bar>r + s\<bar> \<le> 2 ^ (max a b + 1)" "\<bar>r - s\<bar> \<le> 2 ^ (max a b + 1)"
proof -
  have "(2::'a) ^ a \<le> 2 ^ max a b" "(2::'a) ^ b \<le> 2 ^ max a b"
    by (intro power_increasing; simp)+
  then have "\<bar>r\<bar> \<le> 2 ^ max a b" "\<bar>s\<bar> \<le> 2 ^ max a b" using assms by linarith+
  then have "\<bar>r\<bar> + \<bar>s\<bar> \<le> 2 ^ max a b + 2 ^ max a b" by linarith
  also have "\<dots> = 2 ^ (max a b + 1)" by simp
  finally have "\<bar>r\<bar> + \<bar>s\<bar> \<le> 2 ^ (max a b + 1)" .
  then show "\<bar>r + s\<bar> \<le> 2 ^ (max a b + 1)" "\<bar>r - s\<bar> \<le> 2 ^ (max a b + 1)"
    by linarith+
qed

lemma num_add_bounded:
  assumes "bounded a x" "bounded b y" "max a b + 1 \<le> 1023"
  shows "\<exists>z. num_add x y = Inr z \<and> bounded (max a b + 1) z"
proof (cases "\<exists>m n. x = PyInt m \<and> y = PyInt n")
  case True
  then obtain m n where xy: "x = PyInt m" "y = PyInt n" by blast
  show ?thesis using assms(1,2) abs_add_le_pow2(1)[of m a n b] by (simp add: xy)
next
  case False
  obtain r where r: "as_float x = Inr (Fin r)" "\<bar>r\<bar> \<le> 2 ^ a"
    using assms by (auto elim!: as_float_bounded[of a x])
  obtain s where s: "as_float y = Inr (Fin s)" "\<bar>s\<bar> \<le> 2 ^ b"
    using assms by (auto elim!: as_float_bounded[of b y])
  have rs: "\<bar>r + s\<bar> \<le> 2 ^ (max a b + 1)" using r(2) s(2) by (rule abs_add_le_pow2)
  have "num_add x y = Inr (PyFloat (Fin (round_double (r + s))))"
    by (simp add: num_add_float[OF False] r s to_double_Fin[OF rs assms(3)])
  moreover have "\<bar>round_double (r + s)\<bar> \<le> 2 ^ (max a b + 1)"
    using rs by (rule round_double_abs_le_pow2)
  ultimately show ?thesis by simp
qed

lemma num_sub_bounded:
  assumes "bounded a x" "bounded b y" "max a b + 1 \<le> 1023"
  shows "\<exists>z. num_sub x y = Inr z \<and> bounded (max a b + 1) z"
proof (cases "\<exists>m n. x = PyInt m \<and> y = PyInt n")
  case True
  then obtain m n where xy: "x = PyInt m" "y = PyInt n" by blast
  show ?thesis using assms(1,2) abs_add_le_pow2(2)[of m a n b] by (simp add: xy)
next
  case False
  obtain r where r: "as_float x = Inr (Fin r)" "\<bar>r\<bar> \<le> 2 ^ a"
    using assms by (auto elim!: as_float_bounded[of a x])
  obtain s where s: "as_float y = Inr (Fin s)" "\<bar>s\<bar> \<le> 2 ^ b"
    using assms by (auto elim!: as_float_bounded[of b y])
  have rs: "\<bar>r + - s\<bar> \<le> 2 ^ (max a b + 1)" using r(2) s(2) abs_add_le_pow2(2)[of r a s b] by simp
  have "num_sub x y = Inr (PyFloat (Fin (round_double (r + - s))))"
    by (simp add: num_sub_float[OF False] r s fsub_def to_double_Fin[OF rs assms(3)] del: add_uminus_conv_diff)
  moreover have "\<bar>round_double (r + - s)\<bar> \<le> 2 ^ (max a b + 1)"
    using rs by (rule round_double_abs_le_pow2)
  ultimately show ?thesis by simp
qed

lemma ok_lit_int: "\<bar>n\<bar> \<le> 64 \<Longrightarrow> ok 6 (lit_int n)"
  by (simp add: ok_def lit_int_def)

lemma ok_var: "bounded k v \<Longrightarrow> ok k (var v)"
  by (simp add: ok_def var_def)

lemma ok_lit_float:
  assumes "\<bar>q\<bar> \<le> 32"
  shows "ok 5 (lit_float q)"
proof -
  have q: "\<bar>q\<bar> \<le> 2 ^ 5" using assms by simp
  have "\<bar>round_double q\<bar> \<le> 2 ^ 5" using q by (rule round_double_abs_le_pow2)
  then show ?thesis by (simp add: ok_def lit_float_def to_double_Fin[OF q])
qed

lemma ok_mul: "ok a x \<Longrightarrow> ok b y \<Longrightarrow> a + b \<le> 1023 \<Longrightarrow> ok (a + b) (py_mul x y)"
  using num_mul_bounded by (auto simp add: ok_def py_mul_def)

lemma ok_add: "ok a x \<Longrightarrow> ok b y \<Longrightarrow> max a b + 1 \<le> 1023 \<Longrightarrow> ok (max a b + 1) (py_add x y)"
  using num_add_bounded by (auto simp add: ok_def py_add_def)

lemma ok_sub: "ok a x \<Longrightarrow> ok b y \<Longrightarrow> max a b + 1 \<le> 1023 \<Longrightarrow> ok (max a b + 1) (py_sub x y)"
  using num_sub_bounded by (auto simp add: ok_def py_sub_def)

lemma ok_weaken: "ok a x \<Longrightarrow> a \<le> b \<Longrightarrow> ok b x"
proof -
  assume a: "ok a x" "a \<le> b"
  then obtain v where v: "x = Inr v" "bounded a v" by (auto simp: ok_def)
  have "(2::rat) ^ a \<le> 2 ^ b" "(2::int) ^ a \<le> 2 ^ b" using a(2) by (intro power_increasing; simp)+
  then have "bounded b v" using v(2)
    by (auto simp: bounded_def split: pynum.splits pyfloat.splits intro: order_trans)
  then show ?thesis using v by (auto simp: ok_def)
qed

lemma trunc_abs_le: "\<bar>of_int (trunc r) :: rat\<bar> \<le> \<bar>r\<bar>"
proof (cases "0 \<le> r")
  case True
  have "(0::rat) \<le> of_int \<lfloor>r\<rfloor>" using True by simp
  moreover have "of_int \<lfloor>r\<rfloor> \<le> r" by (rule of_int_floor_le)
  ultimately show ?thesis using True by (simp add: trunc_def)
next
  case False
  then have "\<lceil>r\<rceil> \<le> 0" by (simp add: ceiling_le_iff)
  then have "(of_int \<lceil>r\<rceil> :: rat) \<le> 0" by simp
  moreover have "r \<le> of_int \<lceil>r\<rceil>" by (rule le_of_int_ceiling)
  ultimately show ?thesis using False by (simp add: trunc_def)
qed

lemma ok_int:
  assumes "ok k e"
  obtains n where "py_int e = Inr n" "\<bar>n\<bar> \<le> 2 ^ k"
proof -
  obtain v where v: "e = Inr v" "bounded k v" using assms by (auto simp: ok_def)
  show ?thesis
  proof (cases v)
    case (PyInt n)
    then show ?thesis using v that by (simp add: py_int_def)
  next
    case (PyFloat x)
    then obtain r where x: "x = Fin r" "\<bar>r\<bar> \<le> 2 ^ k"
      using v(2) by (cases x) (simp_all add: bounded_def)
    have "\<bar>of_int (trunc r) :: rat\<bar> \<le> \<bar>r\<bar>" by (rule trunc_abs_le)
    then have "\<bar>of_int (trunc r) :: rat\<bar> \<le> of_int (2 ^ k)" using x(2) by simp
    then have "\<bar>trunc r\<bar> \<le> 2 ^ k" by (simp only: of_int_le_iff flip: of_int_abs)
    then show ?thesis using that by (simp add: py_int_def v PyFloat x)
  qed
qed


section \<open>The background pass\<close>

lemma float_of_int_small:
  assumes "\<bar>n\<bar> \<le> 2 ^ 53"
  shows "float_of_int n = Inr (Fin (of_int n))"
proof -
  have "(of_int \<bar>n\<bar> :: rat) \<le> of_int (2 ^ 53)" using assms by (simp only: of_int_le_iff)
  then have n: "\<bar>of_int n :: rat\<bar> \<le> 2 ^ 53" by simp
  have "to_double (of_int n) = Fin (round_double (of_int n))" using n by (rule to_double_Fin) simp
  then show ?thesis by (simp add: float_of_int_def round_double_of_int[OF assms])
qed

lemma round_double_1 [simp]: "round_double 1 = 1"
  using round_double_of_int[of 1] by simp

lemma round_double_unit:
  assumes "0 \<le> x" "x \<le> 1"
  shows "0 \<le> round_double x" "round_double x \<le> 1"
proof -
  show "0 \<le> round_double x" using assms(1) by (rule round_double_nonneg)
  have "round_double x \<le> round_double 1" using assms(2) by (rule round_double_mono)
  then show "round_double x \<le> 1" by simp
qed

lemma interpolate_eval:
  assumes "\<bar>c1\<bar> \<le> 256" "\<bar>c2\<bar> \<le> 256" "0 \<le> \<rho>" "\<rho> \<le> 1"
  shows "py_int (py_add (lit_int c1) (py_mul (py_sub (lit_int c2) (lit_int c1))
            (var (PyFloat (Fin \<rho>))))) = Inr (interpolate c1 c2 \<rho>)"
proof -
  let ?d = "c2 - c1"
  have d: "\<bar>?d\<bar> \<le> 2 ^ 53" using assms(1,2) by simp
  have "\<bar>of_int ?d :: rat\<bar> \<le> 512"
  proof -
    have "\<bar>?d\<bar> \<le> 512" using assms(1,2) by simp
    then have "(of_int \<bar>?d\<bar> :: rat) \<le> of_int 512" by (simp only: of_int_le_iff)
    then show ?thesis by simp
  qed
  then have "\<bar>of_int ?d * \<rho>\<bar> \<le> 512 * 1"
    unfolding abs_mult using assms(3,4) by (intro mult_mono) simp_all
  then have p: "\<bar>of_int ?d * \<rho>\<bar> \<le> 2 ^ 9" by simp
  note mul = to_double_Fin[OF p]
  have rp: "\<bar>round_double (of_int ?d * \<rho>)\<bar> \<le> 2 ^ 9" using p by (rule round_double_abs_le_pow2)
  have c1: "\<bar>c1\<bar> \<le> 2 ^ 53" using assms(1) by simp
  have "\<bar>of_int c1 :: rat\<bar> \<le> 256"
  proof -
    have "(of_int \<bar>c1\<bar> :: rat) \<le> of_int 256" using assms(1) by (simp only: of_int_le_iff)
    then show ?thesis by simp
  qed
  then have s: "\<bar>of_int c1 + round_double (of_int ?d * \<rho>)\<bar> \<le> 2 ^ 10" using rp by simp
  note add = to_double_Fin[OF s]
  show ?thesis
    by (simp add: py_int_def py_add_def py_mul_def py_sub_def lit_int_def var_def
        float_of_int_small[OF d] float_of_int_small[OF c1] mul add interpolate_def
        del: of_int_diff)
qed

lemma gradient_color_eq:
  assumes "0 < size'" "0 \<le> y" "y < size'"
  shows "gradient_color size' y = Inr (row_color size' y)"
proof -
  let ?q = "of_int y / of_int size' :: rat"
  have q: "0 \<le> ?q" "?q \<le> 1" using assms by simp_all
  then have "\<bar>?q\<bar> \<le> 2 ^ 0" by simp
  then have td: "to_double ?q = Fin (round_double ?q)" by (rule to_double_Fin) simp
  have ratio: "py_truediv (var (PyInt y)) (var (PyInt size')) = Inr (PyFloat (Fin (round_double ?q)))"
    using assms(1) by (simp add: py_truediv_def var_def td)
  note r = round_double_unit[OF q]
  show ?thesis
    unfolding gradient_color_def ratio ebind_Inr
    by (simp add: interpolate_eval[OF _ _ r] row_color_def Let_def)
qed

lemma for_each_append:
  "for_each body (xs @ ys) s = ebind (for_each body xs s) (for_each body ys)"
  by (induction xs arbitrary: s) (auto simp: ebind_def split: sum.splits)

lemma py_range_Suc: "py_range (int (Suc n)) = py_range (int n) @ [int n]"
  unfolding py_range_def using upto_rec2[of 0 "int n"] by simp

lemma py_range_0 [simp]: "py_range 0 = []"
  by (simp add: py_range_def)

text \<open>The invariant of the gradient loop after its first \<open>n\<close> rows.\<close>

lemma gradient_rows:
  assumes "width img = size'" "height img = size'" "int n \<le> size'"
  shows "\<exists>img'. for_each (gradient_row L size') (py_range (int n)) img = Inr img'
    \<and> mode img' = mode img \<and> width img' = size' \<and> height img' = size'
    \<and> (\<forall>x y. 0 \<le> x \<and> x < size' \<and> 0 \<le> y \<and> y < int n \<longrightarrow> pixels img' x y = row_color size' y)"
  using assms(3)
proof (induction n)
  case 0
  then show ?case using assms(1,2) by auto
next
  case (Suc n)
  then obtain img' where img': "for_each (gradient_row L size') (py_range (int n)) img = Inr img'"
    "mode img' = mode img" "width img' = size'" "height img' = size'"
    "\<forall>x y. 0 \<le> x \<and> x < size' \<and> 0 \<le> y \<and> y < int n \<longrightarrow> pixels img' x y = row_color size' y"
    by auto
  have n: "0 < size'" "0 \<le> int n" "int n < size'" using Suc.prems by simp_all
  have row: "gradient_row L size' img' (int n) =
      draw_rectangle L img' (0, int n) (size', int n + 1) (row_color size' (int n))"
    by (simp add: gradient_row_def gradient_color_eq[OF n])
  define img2 where "img2 = img'\<lparr>pixels := (\<lambda>x y.
      if inside img' x y \<and> 0 \<le> x
         \<and> x \<le> (if rectangle_inclusive L then size' else size' - 1)
         \<and> int n \<le> y \<and> y \<le> (if rectangle_inclusive L then int n + 1 else int n + 1 - 1)
      then row_color size' (int n) else pixels img' x y)\<rparr>"
  have dr: "draw_rectangle L img' (0, int n) (size', int n + 1) (row_color size' (int n)) = Inr img2"
    using n by (simp add: draw_rectangle_def Let_def img2_def)
  have px: "pixels img2 x y = row_color size' y"
    if xy: "0 \<le> x" "x < size'" "0 \<le> y" "y < int (Suc n)" for x y
  proof (cases "y = int n")
    case True
    then show ?thesis using xy n img'(3,4) by (simp add: img2_def inside_def)
  next
    case False
    then have "y < int n" using xy(4) by simp
    then show ?thesis using xy img'(5) by (simp add: img2_def)
  qed
  have "for_each (gradient_row L size') (py_range (int (Suc n))) img = Inr img2"
    unfolding py_range_Suc for_each_append img' ebind_Inr by (simp add: row dr)
  moreover have "mode img2 = mode img" "width img2 = size'" "height img2 = size'"
    using img'(2-4) by (simp_all add: img2_def)
  ultimately show ?case using px by blast
qed

lemma background_eq:
  assumes "0 < size'" "size' < 2 ^ 31" "size' \<le> max_side L"
  shows "\<exists>img. background L size' = Inr img
    \<and> mode img = RGB \<and> width img = size' \<and> height img = size'
    \<and> (\<forall>x y. 0 \<le> x \<and> x < size' \<and> 0 \<le> y \<and> y < size' \<longrightarrow> pixels img x y = row_color size' y)"
proof -
  let ?img = "\<lparr>mode = RGB, width = size', height = size', pixels = (\<lambda>x y. Rgb 255 255 255)\<rparr>"
  have new: "Image_new L RGB (size', size') (Rgb 255 255 255) = Inr ?img"
    using assms by (simp add: Image_new_def)
  have "int (nat size') \<le> size'" using assms by simp
  from gradient_rows[of ?img size' "nat size'" L, OF _ _ this]
  show ?thesis using assms(1)
    by (simp add: background_def new draw_gradient_def)
qed

lemma trunc_mono:
  assumes "r \<le> s"
  shows "trunc r \<le> trunc s"
proof -
  consider "0 \<le> r" | "r < 0" "s < 0" | "r < 0" "0 \<le> s" by linarith
  then show ?thesis
  proof cases
    case 1
    then show ?thesis using assms by (simp add: trunc_def floor_mono)
  next
    case 2
    then show ?thesis using assms by (simp add: trunc_def ceiling_mono)
  next
    case 3
    have "\<lceil>r\<rceil> \<le> 0" using 3(1) by (simp add: ceiling_le_iff)
    also have "0 \<le> \<lfloor>s\<rfloor>" using 3(2) by simp
    finally have "\<lceil>r\<rceil> \<le> \<lfloor>s\<rfloor>" .
    moreover have "trunc r = \<lceil>r\<rceil>" "trunc s = \<lfloor>s\<rfloor>" using 3 by (simp_all add: trunc_def)
    ultimately show ?thesis by simp
  qed
qed

lemma trunc_of_int [simp]: "trunc (of_int n) = n"
  by (simp add: trunc_def)

lemma interpolate_mono:
  assumes "c1 \<le> c2" "\<rho> \<le> \<rho>'"
  shows "interpolate c1 c2 \<rho> \<le> interpolate c1 c2 \<rho>'"
proof -
  have "(0::rat) \<le> of_int (c2 - c1)" using assms(1) by simp
  then have "of_int (c2 - c1) * \<rho> \<le> of_int (c2 - c1) * \<rho>'"
    using assms(2) by (rule mult_left_mono[rotated])
  then have "round_double (of_int (c2 - c1) * \<rho>) \<le> round_double (of_int (c2 - c1) * \<rho>')"
    by (rule round_double_mono)
  then have "of_int c1 + round_double (of_int (c2 - c1) * \<rho>)
      \<le> of_int c1 + round_double (of_int (c2 - c1) * \<rho>')" by simp
  then show ?thesis unfolding interpolate_def by (intro trunc_mono round_double_mono)
qed

lemma interpolate_antimono:
  assumes "c2 \<le> c1" "\<rho> \<le> \<rho>'"
  shows "interpolate c1 c2 \<rho>' \<le> interpolate c1 c2 \<rho>"
proof -
  have "of_int (c2 - c1) \<le> (0::rat)" using assms(1) by simp
  then have "of_int (c2 - c1) * \<rho>' \<le> of_int (c2 - c1) * \<rho>"
    using assms(2) by (rule mult_left_mono_neg[rotated])
  then have "round_double (of_int (c2 - c1) * \<rho>') \<le> round_double (of_int (c2 - c1) * \<rho>)"
    by (rule round_double_mono)
  then have "of_int c1 + round_double (of_int (c2 - c1) * \<rho>')
      \<le> of_int c1 + round_double (of_int (c2 - c1) * \<rho>)" by simp
  then show ?thesis unfolding interpolate_def by (intro trunc_mono round_double_mono)
qed

lemma interpolate_0:
  assumes "\<bar>c1\<bar> \<le> 2 ^ 53"
  shows "interpolate c1 c2 0 = c1"
  by (simp add: interpolate_def round_double_of_int[OF assms])

lemma row_color_top:
  assumes "0 < size'"
  shows "row_color size' 0 = Rgb 0x4A 0x90 0xE2"
  by (simp add: row_color_def interpolate_0)

lemma row_color_mono:
  assumes "0 < size'" "y1 \<le> y2"
  shows "red (row_color size' y1) \<le> red (row_color size' y2)"
    and "green (row_color size' y2) \<le> green (row_color size' y1)"
    and "blue (row_color size' y2) \<le> blue (row_color size' y1)"
proof -
  have "(of_int y1 :: rat) \<le> of_int y2" using assms(2) by simp
  then have "(of_int y1 :: rat) / of_int size' \<le> of_int y2 / of_int size'"
    using assms(1) by (intro divide_right_mono) simp_all
  then have r: "round_double (of_int y1 / of_int size') \<le> round_double (of_int y2 / of_int size')"
    by (rule round_double_mono)
  show "red (row_color size' y1) \<le> red (row_color size' y2)"
    using interpolate_mono[OF _ r, of "0x4A" "0x9B"] by (simp add: row_color_def Let_def)
  show "green (row_color size' y2) \<le> green (row_color size' y1)"
    using interpolate_antimono[OF _ r, of "0x59" "0x90"] by (simp add: row_color_def Let_def)
  show "blue (row_color size' y2) \<le> blue (row_color size' y1)"
    using interpolate_antimono[OF _ r, of "0xB6" "0xE2"] by (simp add: row_color_def Let_def)
qed

lemma rd_80_81: "round_double (80 / 81) = 1111999907992715 / 1125899906842624"
  by code_simp

lemma interpolate_low:
  "interpolate 0x4A 0x9B (1111999907992715 / 1125899906842624) = 154"
  "interpolate 0x90 0x59 (1111999907992715 / 1125899906842624) = 89"
  "interpolate 0xE2 0xB6 (1111999907992715 / 1125899906842624) = 182"
  by code_simp+

lemma interpolate_high:
  "interpolate 0x4A 0x9B 1 = 155"
  "interpolate 0x90 0x59 1 = 89"
  "interpolate 0xE2 0xB6 1 = 182"
  by code_simp+

lemma row_color_bottom:
  assumes "81 \<le> size'"
  shows "154 \<le> red (row_color size' (size' - 1))" "red (row_color size' (size' - 1)) \<le> 155"
    "green (row_color size' (size' - 1)) = 89" "blue (row_color size' (size' - 1)) = 182"
proof -
  let ?q = "of_int (size' - 1) / of_int size' :: rat"
  have s: "(0::rat) < of_int size'" using assms by simp
  have "(of_int 81 :: rat) \<le> of_int size'" using assms by (simp only: of_int_le_iff)
  then have "(81::rat) \<le> of_int size'" by simp
  then have "(80::rat) * of_int size' \<le> (of_int size' - 1) * 81" by simp
  then have "(80::rat) / 81 \<le> ?q" using s by (simp add: field_simps)
  then have "round_double (80 / 81) \<le> round_double ?q" by (rule round_double_mono)
  then have lo: "1111999907992715 / 1125899906842624 \<le> round_double ?q" by (simp only: rd_80_81)
  have "?q \<le> 1" using s by simp
  then have "round_double ?q \<le> round_double 1" by (rule round_double_mono)
  then have hi: "round_double ?q \<le> 1" by simp
  show "154 \<le> red (row_color size' (size' - 1))"
    using interpolate_mono[OF _ lo, of "0x4A" "0x9B"]
    by (simp add: row_color_def Let_def interpolate_low)
  show "red (row_color size' (size' - 1)) \<le> 155"
    using interpolate_mono[OF _ hi, of "0x4A" "0x9B"]
    by (simp add: row_color_def Let_def interpolate_high)
  show "green (row_color size' (size' - 1)) = 89"
    using interpolate_antimono[OF _ lo, of "0x59" "0x90"] interpolate_antimono[OF _ hi, of "0x59" "0x90"]
    by (simp add: row_color_def Let_def interpolate_low interpolate_high)
  show "blue (row_color size' (size' - 1)) = 182"
    using interpolate_antimono[OF _ lo, of "0xB6" "0xE2"] interpolate_antimono[OF _ hi, of "0xB6" "0xE2"]
    by (simp add: row_color_def Let_def interpolate_low interpolate_high)
qed

lemma row_color_not_white: 
  assumes "0 < size'" "0 \<le> y" "y < size'"
  shows "row_color size' y \<noteq> Rgb 255 255 255"
proof -
  let ?q = "of_int y / of_int size' :: rat"
  have "?q \<le> 1" using assms by simp
  then have "round_double ?q \<le> round_double 1" by (rule round_double_mono)
  then have hi: "round_double ?q \<le> 1" by simp
  have "red (row_color size' y) \<le> 155"
    using interpolate_mono[OF _ hi, of "0x4A" "0x9B"]
    by (simp add: row_color_def Let_def interpolate_high)
  then show ?thesis by auto
qed


lemma rd_79_80: "round_double (79 / 80) = 4447304632028365 / 4503599627370496"
  by code_simp

lemma interpolate_79_80:
  "interpolate 0x4A 0x9B (4447304632028365 / 4503599627370496) = 153"
  by code_simp

lemma row_color_bottom_small:
  assumes "0 < size'" "size' < 81"
  shows "red (row_color size' (size' - 1)) \<le> 153"
proof -
  let ?q = "of_int (size' - 1) / of_int size' :: rat"
  have s: "(0::rat) < of_int size'" using assms(1) by simp
  have "(of_int size' :: rat) \<le> of_int 80" using assms(2) by (simp only: of_int_le_iff)
  then have "(of_int size' - 1) * 80 \<le> (79::rat) * of_int size'" by simp
  then have "?q \<le> 79 / 80" using s by (simp add: field_simps)
  then have "round_double ?q \<le> round_double (79 / 80)" by (rule round_double_mono)
  then have hi: "round_double ?q \<le> 4447304632028365 / 4503599627370496"
    by (simp only: rd_79_80)
  show ?thesis
    using interpolate_mono[OF _ hi, of "0x4A" "0x9B"]
    by (simp add: row_color_def Let_def interpolate_79_80)
qed

lemma row_color_bottom_iff:
  assumes "0 < size'"
  shows "within_rounding (row_color size' (size' - 1)) (Rgb 0x9B 0x59 0xB6) \<longleftrightarrow> 81 \<le> size'"
proof (cases "81 \<le> size'")
  case True
  then show ?thesis using row_color_bottom[OF True] by (simp add: within_rounding_def)
next
  case False
  then have "size' < 81" by simp
  from row_color_bottom_small[OF assms this] False
  show ?thesis by (simp add: within_rounding_def)
qed

text \<open>
  C5, as stated, fails from the size \<open>2 ^ 31\<close> on, and on any size the library cannot
  store (here one above 65535): the canvas cannot be created, so no row is painted.
\<close>

theorem background_size_2_31:
  "background vertex_imaging 2147483648 = Inl OverflowError
   \<and> background vertex_imaging 65536 = Inl MemoryError"
  by (simp add: background_def Image_new_def vertex_imaging_def)

text \<open>
  C5, amended. For every positive size below \<open>2 ^ 31\<close> that the library can store, after
  the background pass every row \<open>y\<close> of the canvas holds, at every \<open>x\<close>, the colour
  interpolated between the start and the end colour at the ratio \<open>y / size\<close> and truncated
  per channel; no pixel, the last row included, keeps the white the canvas was created
  with. This holds for either reading of the rectangle's second corner.
\<close>

theorem background_rows_filled:
  assumes "0 < size'" "size' < 2 ^ 31" "size' \<le> max_side L"
  shows "\<exists>img. background L size' = Inr img
    \<and> (\<forall>x y. 0 \<le> x \<and> x < size' \<and> 0 \<le> y \<and> y < size' \<longrightarrow>
           pixels img x y = row_color size' y \<and> pixels img x y \<noteq> Rgb 255 255 255)"
proof -
  obtain img where img: "background L size' = Inr img"
    "\<forall>x y. 0 \<le> x \<and> x < size' \<and> 0 \<le> y \<and> y < size' \<longrightarrow> pixels img x y = row_color size' y"
    using background_eq[OF assms] by blast
  show ?thesis using img row_color_not_white[OF assms(1)] by auto
qed

lemma row_color_4_3: "row_color 4 3 = Rgb 134 102 193"
  by code_simp

theorem background_rows_filled_witness:
  "pixel_at (background vertex_imaging 4) 3 3 = Inr (Rgb 134 102 193)"
proof -
  have "(0::int) < 4" "(4::int) < 2 ^ 31" "4 \<le> max_side vertex_imaging"
    by (simp_all add: vertex_imaging_def)
  from background_rows_filled[OF this]
  obtain img where img: "background vertex_imaging 4 = Inr img"
    "pixels img 3 3 = row_color 4 3" by auto
  show ?thesis by (simp add: pixel_at_def img row_color_4_3)
qed

lemma row_color_2_1: "row_color 2 1 = Rgb 114 116 204"
  by code_simp

lemma small_sizes_stored:
  "(0::int) < 2" "(2::int) < 2 ^ 31" "2 \<le> max_side vertex_imaging"
  "(0::int) < 81" "(81::int) < 2 ^ 31" "81 \<le> max_side vertex_imaging"
  by (simp_all add: vertex_imaging_def)

text \<open>
  C3, as stated, fails on small canvases: the last row is painted at the ratio
  \<open>(size - 1) / size\<close>, not at 1. At size 2 the bottom row is \<open>(114, 116, 204)\<close>, half way
  between the two colours. And there is no canvas at all, hence no top row, from the size
  \<open>2 ^ 31\<close> on or on a size the library cannot store.
\<close>

theorem bottom_row_size_2:
  "pixel_at (background vertex_imaging 2) 0 (2 - 1) = Inr (Rgb 114 116 204)
   \<and> \<not> within_rounding (Rgb 114 116 204) (Rgb 0x9B 0x59 0xB6)
   \<and> pixel_at (background vertex_imaging 2147483650) 0 0 = Inl OverflowError
   \<and> pixel_at (background vertex_imaging 65538) 0 0 = Inl MemoryError"
proof -
  have none: "pixel_at (background vertex_imaging 2147483650) 0 0 = Inl OverflowError"
    "pixel_at (background vertex_imaging 65538) 0 0 = Inl MemoryError"
    by (simp_all add: pixel_at_def background_def Image_new_def vertex_imaging_def)
  from background_eq[OF small_sizes_stored(1-3)]
  obtain img where img: "background vertex_imaging 2 = Inr img"
    "pixels img 0 1 = row_color 2 1" by auto
  show ?thesis using none by (simp add: pixel_at_def img row_color_2_1 within_rounding_def)
qed

text \<open>
  C3, amended. For every positive size below \<open>2 ^ 31\<close> that the library can store, after
  the background pass: the top row has exactly the start colour \<open>(0x4A, 0x90, 0xE2)\<close>;
  the bottom row has the colour interpolated at the ratio \<open>(size - 1) / size\<close>, which is
  within one unit per channel of the end colour \<open>(0x9B, 0x59, 0xB6)\<close> exactly when the size
  is at least 81; and from one row to any lower row the red channel does not decrease
  and the green and blue channels do not increase.
\<close>

theorem gradient_endpoints_monotone:
  assumes "0 < size'" "size' < 2 ^ 31" "size' \<le> max_side L"
  shows "\<exists>img. background L size' = Inr img
    \<and> (\<forall>x. 0 \<le> x \<and> x < size' \<longrightarrow>
          pixels img x 0 = Rgb 0x4A 0x90 0xE2
          \<and> pixels img x (size' - 1) = row_color size' (size' - 1)
          \<and> (within_rounding (pixels img x (size' - 1)) (Rgb 0x9B 0x59 0xB6) \<longleftrightarrow> 81 \<le> size'))
    \<and> (\<forall>x y1 y2. 0 \<le> x \<and> x < size' \<and> 0 \<le> y1 \<and> y1 < y2 \<and> y2 < size' \<longrightarrow>
          red (pixels img x y1) \<le> red (pixels img x y2)
          \<and> green (pixels img x y2) \<le> green (pixels img x y1)
          \<and> blue (pixels img x y2) \<le> blue (pixels img x y1))"
proof -
  obtain img where img: "background L size' = Inr img"
    and px: "\<And>x y. 0 \<le> x \<Longrightarrow> x < size' \<Longrightarrow> 0 \<le> y \<Longrightarrow> y < size' \<Longrightarrow> pixels img x y = row_color size' y"
    using background_eq[OF assms] by blast
  have ends: "pixels img x 0 = Rgb 0x4A 0x90 0xE2
          \<and> pixels img x (size' - 1) = row_color size' (size' - 1)
          \<and> (within_rounding (pixels img x (size' - 1)) (Rgb 0x9B 0x59 0xB6) \<longleftrightarrow> 81 \<le> size')"
    if x: "0 \<le> x" "x < size'" for x
  proof -
    have top: "pixels img x 0 = Rgb 0x4A 0x90 0xE2"
      using px[OF x, of 0] assms(1) row_color_top[OF assms(1)] by simp
    have bottom: "pixels img x (size' - 1) = row_color size' (size' - 1)"
      using px[OF x, of "size' - 1"] assms(1) by simp
    show ?thesis unfolding bottom using top row_color_bottom_iff[OF assms(1)] by simp
  qed
  have mono: "red (pixels img x y1) \<le> red (pixels img x y2)
          \<and> green (pixels img x y2) \<le> green (pixels img x y1)
          \<and> blue (pixels img x y2) \<le> blue (pixels img x y1)"
    if "0 \<le> x" "x < size'" "0 \<le> y1" "y1 < y2" "y2 < size'" for x y1 y2
  proof -
    have "pixels img x y1 = row_color size' y1" "pixels img x y2 = row_color size' y2"
      using px[OF that(1,2)] that(3-5) by simp_all
    then show ?thesis using row_color_mono[OF assms(1), of y1 y2] that(4) by simp
  qed
  show ?thesis using img ends mono by blast
qed

theorem gradient_endpoints_monotone_witness:
  "\<exists>top bottom. pixel_at (background vertex_imaging 81) 0 0 = Inr top
     \<and> pixel_at (background vertex_imaging 81) 0 80 = Inr bottom
     \<and> top = Rgb 0x4A 0x90 0xE2 \<and> bottom = row_color 81 80
     \<and> within_rounding bottom (Rgb 0x9B 0x59 0xB6)
     \<and> red top \<le> red bottom \<and> green bottom \<le> green top \<and> blue bottom \<le> blue top"
proof -
  from gradient_endpoints_monotone[OF small_sizes_stored(4-6)]
  obtain img where a: "background vertex_imaging 81 = Inr img"
    and b: "\<forall>x. 0 \<le> x \<and> x < 81 \<longrightarrow>
          pixels img x 0 = Rgb 0x4A 0x90 0xE2
          \<and> pixels img x (81 - 1) = row_color 81 (81 - 1)
          \<and> (within_rounding (pixels img x (81 - 1)) (Rgb 0x9B 0x59 0xB6) \<longleftrightarrow> (81::int) \<le> 81)"
    and d: "\<forall>x y1 y2. 0 \<le> x \<and> x < 81 \<and> 0 \<le> y1 \<and> y1 < y2 \<and> y2 < 81 \<longrightarrow>
          red (pixels img x y1) \<le> red (pixels img x y2)
          \<and> green (pixels img x y2) \<le> green (pixels img x y1)
          \<and> blue (pixels img x y2) \<le> blue (pixels img x y1)"
    by blast
  have "(0::int) \<le> 0 \<and> (0::int) < 81" "(81::int) - 1 = 80" "(81::int) \<le> 81" by simp_all
  with b[rule_format, of 0]
  have "pixels img 0 0 = Rgb 0x4A 0x90 0xE2" "pixels img 0 80 = row_color 81 80"
    "within_rounding (pixels img 0 80) (Rgb 0x9B 0x59 0xB6)"
    by metis+
  moreover have "red (pixels img 0 0) \<le> red (pixels img 0 80)
          \<and> green (pixels img 0 80) \<le> green (pixels img 0 0)
          \<and> blue (pixels img 0 80) \<le> blue (pixels img 0 0)"
    using d[rule_format, of 0 0 80] by simp
  ultimately show ?thesis unfolding pixel_at_def a ebind_Inr by blast
qed

section \<open>The renderer returns\<close>

lemma ok_lit_int8: "\<bar>n\<bar> \<le> 256 \<Longrightarrow> ok 8 (lit_int n)"
  by (simp add: ok_def lit_int_def)

lemma abs_divide_le:
  fixes r :: rat
  assumes "n \<noteq> 0"
  shows "\<bar>r / of_int n\<bar> \<le> \<bar>r\<bar>"
proof -
  have "1 \<le> \<bar>n\<bar>" using assms by simp
  then have "(of_int 1 :: rat) \<le> of_int \<bar>n\<bar>" by (simp only: of_int_le_iff)
  then have n: "(1::rat) \<le> \<bar>of_int n\<bar>" by simp
  have "\<bar>r\<bar> / \<bar>of_int n\<bar> \<le> \<bar>r\<bar> / 1"
    using n by (intro divide_left_mono) simp_all
  then show ?thesis by simp
qed

lemma ok_truediv:
  assumes "ok a x" "n \<noteq> 0" "\<bar>n\<bar> \<le> 256" "a \<le> 1023"
  shows "ok a (py_truediv x (lit_int n))"
proof -
  obtain v where v: "x = Inr v" "bounded a v" using assms(1) by (auto simp: ok_def)
  show ?thesis
  proof (cases v)
    case (PyInt m)
    have "\<bar>m\<bar> \<le> 2 ^ a" using v(2) PyInt by simp
    then have "(of_int \<bar>m\<bar> :: rat) \<le> of_int (2 ^ a)" by (simp only: of_int_le_iff)
    then have m: "\<bar>of_int m :: rat\<bar> \<le> 2 ^ a" by simp
    have q: "\<bar>of_int m / of_int n :: rat\<bar> \<le> 2 ^ a"
      using abs_divide_le[OF assms(2), of "of_int m"] m by linarith
    have "\<bar>round_double (of_int m / of_int n)\<bar> \<le> 2 ^ a"
      using q by (rule round_double_abs_le_pow2)
    then show ?thesis using assms(2)
      by (simp add: ok_def py_truediv_def lit_int_def v PyInt to_double_Fin[OF q assms(4)])
  next
    case (PyFloat f)
    then obtain r where r: "f = Fin r" "\<bar>r\<bar> \<le> 2 ^ a"
      using v(2) by (cases f) (simp_all add: bounded_def)
    have n53: "\<bar>n\<bar> \<le> 2 ^ 53" using assms(3) by simp
    have q: "\<bar>r / of_int n :: rat\<bar> \<le> 2 ^ a"
      using abs_divide_le[OF assms(2), of r] r(2) by linarith
    have "\<bar>round_double (r / of_int n)\<bar> \<le> 2 ^ a"
      using q by (rule round_double_abs_le_pow2)
    then show ?thesis using assms(2)
      by (simp add: ok_def py_truediv_def lit_int_def v PyFloat r(1)
          float_of_int_small[OF n53] to_double_Fin[OF q assms(4)])
  qed
qed

lemma ok_int_lift:
  assumes "ok k e"
  shows "ok k (ebind (py_int e) (\<lambda>n. Inr (PyInt n)))"
proof -
  obtain n where "py_int e = Inr n" "\<bar>n\<bar> \<le> 2 ^ k" using assms by (rule ok_int)
  then show ?thesis by (simp add: ok_def)
qed

lemma okp_point:
  assumes "ok a x" "ok b y" "a \<le> k" "b \<le> k"
  shows "okp k (point x y)"
proof -
  have "ok k x" "ok k y" using assms by (auto intro: ok_weaken)
  then show ?thesis by (auto simp: ok_def okp_def point_def bounded_point_def)
qed

lemma oks_Nil: "oks k []"
  by (simp add: oks_def)

lemma oks_Cons: "okp k m \<Longrightarrow> oks k ms \<Longrightarrow> oks k (m # ms)"
  by (auto simp: oks_def okp_def)

lemma oks_map:
  assumes "\<And>p. p \<in> set ps \<Longrightarrow> okp k (f p)"
  shows "oks k (map f ps)"
  using assms by (induction ps) (auto intro: oks_Nil oks_Cons)

lemmas ok_rules = ok_add ok_sub ok_mul ok_truediv ok_lit_int8 ok_lit_float ok_var ok_int_lift
  okp_point oks_Cons oks_Nil

lemma foreground_transform_ok:
  assumes "0 < size'" "size' \<le> 2 ^ 31"
  obtains fs tx ty where "foreground_transform size' = Inr (fs, tx, ty)"
    "bounded 31 fs" "bounded 36 tx" "bounded 36 ty"
proof -
  have s: "bounded 31 (PyInt size')" using assms by simp
  have "ok 31 (py_truediv (var (PyInt size')) (lit_int 108))"
    by (rule ok_rules s | simp)+
  then obtain scale where scale: "py_truediv (var (PyInt size')) (lit_int 108) = Inr scale"
    "bounded 31 scale" by (auto simp: ok_def)
  have "ok 31 (py_mul (lit_float (7 / 10)) (var scale))"
  proof -
    have "\<bar>7 / 10 :: rat\<bar> \<le> 2 ^ 0" by simp
    then have "\<bar>round_double (7 / 10)\<bar> \<le> 2 ^ 0" "to_double (7 / 10) = Fin (round_double (7 / 10))"
      by (rule round_double_abs_le_pow2, rule to_double_Fin) simp
    then have "ok 0 (lit_float (7 / 10))" by (simp add: ok_def lit_float_def)
    from ok_mul[OF this ok_var[OF scale(2)]] show ?thesis by simp
  qed
  then obtain fs where fs: "py_mul (lit_float (7 / 10)) (var scale) = Inr fs" "bounded 31 fs"
    by (auto simp: ok_def)
  have "ok 36 (py_mul (lit_float (162 / 10)) (var scale))"
    by (rule ok_weaken, (rule ok_rules scale | simp)+)
  then obtain tx where tx: "py_mul (lit_float (162 / 10)) (var scale) = Inr tx" "bounded 36 tx"
    by (auto simp: ok_def)
  show ?thesis
  proof (rule that[of fs tx tx])
    show "foreground_transform size' = Inr (fs, tx, tx)"
      by (simp only: foreground_transform_def scale fs tx ebind_Inr)
  qed (rule fs tx)+
qed

lemma shield_anchor_ok:
  assumes "bounded 31 fs" "bounded 36 tx" "bounded 36 ty"
  obtains base_x base_y shield_size where
    "shield_anchor (fs, tx, ty) = Inr (base_x, base_y, shield_size)"
    "bounded 41 (PyInt base_x)" "bounded 41 (PyInt base_y)" "bounded 41 (PyInt shield_size)"
proof -
  have "ok 41 (py_add (py_mul (lit_int 54) (var fs)) (var tx))"
    by (rule ok_weaken, (rule ok_rules assms | simp)+)
  then obtain base_x where bx: "py_int (py_add (py_mul (lit_int 54) (var fs)) (var tx)) = Inr base_x"
    "\<bar>base_x\<bar> \<le> 2 ^ 41" by (rule ok_int)
  have "ok 41 (py_add (py_mul (lit_int 54) (var fs)) (var ty))"
    by (rule ok_weaken, (rule ok_rules assms | simp)+)
  then obtain base_y where byy: "py_int (py_add (py_mul (lit_int 54) (var fs)) (var ty)) = Inr base_y"
    "\<bar>base_y\<bar> \<le> 2 ^ 41" by (rule ok_int)
  have "ok 41 (py_mul (lit_int 26) (var fs))"
    by (rule ok_weaken, (rule ok_rules assms | simp)+)
  then obtain shield_size where ss: "py_int (py_mul (lit_int 26) (var fs)) = Inr shield_size"
    "\<bar>shield_size\<bar> \<le> 2 ^ 41" by (rule ok_int)
  show ?thesis
  proof (rule that[of base_x base_y shield_size])
    show "shield_anchor (fs, tx, ty) = Inr (base_x, base_y, shield_size)"
      by (simp only: shield_anchor_def prod.case bx byy ss ebind_Inr)
  qed (simp_all only: bounded_PyInt bx byy ss)
qed

lemma oks_lengthI:
  assumes "oks k ms" "length ms = n"
  shows "\<exists>ps. sequence ms = Inr ps \<and> length ps = n \<and> list_all (bounded_point k) ps"
  using assms by (auto simp: oks_def)

lemma shield_path_ok:
  assumes b: "bounded 41 (PyInt base_x)" "bounded 41 (PyInt base_y)"
    "bounded 41 (PyInt shield_size)"
  shows "\<exists>path. shield_path base_x base_y shield_size = Inr path
    \<and> length path = 8 \<and> list_all (bounded_point 51) path"
  unfolding shield_path_def
  by (rule oks_lengthI, (rule ok_rules b | simp)+)

lemma check_points_ok:
  assumes b: "bounded 41 (PyInt base_x)" "bounded 41 (PyInt base_y)"
    "bounded 41 (PyInt check_size)"
  shows "\<exists>path. check_points base_x base_y check_size = Inr path
    \<and> length path = 6 \<and> list_all (bounded_point 51) path"
  unfolding check_points_def
  by (rule oks_lengthI, (rule ok_rules b | simp)+)

lemma inner_shield_ok:
  assumes b: "bounded 41 (PyInt base_x)" "bounded 41 (PyInt base_y)"
    and p: "list_all (bounded_point 51) path"
  shows "\<exists>inner. inner_shield base_x base_y path = Inr inner
    \<and> length inner = length path \<and> list_all (bounded_point 57) inner"
  unfolding inner_shield_def
proof (rule oks_lengthI, rule oks_map)
  fix q assume "q \<in> set path"
  then have q: "bounded 51 (fst q)" "bounded 51 (snd q)"
    using p by (auto simp: list_all_iff bounded_point_def)
  show "okp 57 (point
       (ebind (py_int (py_add (py_mul (var (fst q)) (lit_float (85 / 100)))
                              (py_mul (var (PyInt base_x)) (lit_float (15 / 100)))))
          (\<lambda>n. Inr (PyInt n)))
       (ebind (py_int (py_add (py_mul (var (snd q)) (lit_float (85 / 100)))
                              (py_mul (var (PyInt base_y)) (lit_float (15 / 100)))))
          (\<lambda>n. Inr (PyInt n))))"
    by (rule ok_rules b q | simp)+
qed simp

lemma okE:
  assumes "ok k e"
  obtains v where "e = Inr v" "bounded k v"
  using assms by (auto simp: ok_def)

lemma star_angle_ok:
  assumes "0 \<le> i" "i < 10"
  shows "ok 10 (py_sub (py_truediv (py_mul (var (PyInt i)) (lit_float (314159 / 100000)))
                 (lit_int 5)) (lit_float (15708 / 10000)))"
proof -
  have i: "bounded 4 (PyInt i)" using assms by simp
  show ?thesis by (rule ok_weaken, (rule ok_rules i | simp)+)
qed

lemma star_point_eq:
  assumes "0 \<le> i" "i < 10"
  shows "star_point star_x star_y star_radius i =
     ebind (star_offset star_radius i) (\<lambda>dx.
     ebind (star_offset star_radius i) (\<lambda>dy.
     Inr (PyInt (star_x + dx), PyInt (star_y + dy))))"
proof -
  obtain angle where angle: "py_sub (py_truediv (py_mul (var (PyInt i)) (lit_float (314159 / 100000)))
                 (lit_int 5)) (lit_float (15708 / 10000)) = Inr angle"
    using star_angle_ok[OF assms] by (auto elim: okE)
  show ?thesis
    unfolding star_point_def angle ebind_Inr star_offset_def
    by (cases "if i mod 2 = 0 then var (PyInt star_radius)
            else py_mul (var (PyInt star_radius)) (lit_float (4 / 10))") simp_all
qed

lemma star_offset_ok:
  assumes "bounded 41 (PyInt star_radius)"
  shows "\<exists>d. star_offset star_radius i = Inr d \<and> \<bar>d\<bar> \<le> 2 ^ 60"
proof -
  have "ok 46 (if i mod 2 = 0 then var (PyInt star_radius)
            else py_mul (var (PyInt star_radius)) (lit_float (4 / 10)))"
    by (cases "i mod 2 = 0"; simp only: if_True if_False; rule ok_weaken, (rule ok_rules assms | simp)+)
  then obtain radius where radius: "(if i mod 2 = 0 then var (PyInt star_radius)
            else py_mul (var (PyInt star_radius)) (lit_float (4 / 10))) = Inr radius"
    "bounded 46 radius" by (rule okE)
  have "ok 60 (py_mul (py_mul (var radius) (if i mod 2 = 0 then lit_int 1 else lit_int (- 1)))
                    (lit_float (7 / 10)))"
    by (cases "i mod 2 = 0"; simp only: if_True if_False; rule ok_weaken, (rule ok_rules radius | simp)+)
  then obtain d where "py_int (py_mul (py_mul (var radius) (if i mod 2 = 0 then lit_int 1 else lit_int (- 1)))
                    (lit_float (7 / 10))) = Inr d" "\<bar>d\<bar> \<le> 2 ^ 60" by (rule ok_int)
  then show ?thesis unfolding star_offset_def radius ebind_Inr by blast
qed

lemma star_offset_parity: "star_offset star_radius (i + 2) = star_offset star_radius i"
  by (simp add: star_offset_def)

lemma py_range_10: "py_range 10 = [0, 1, 2, 3, 4, 5, 6, 7, 8, 9]"
  by code_simp

lemma sequence_Inr:
  assumes "list_all2 (\<lambda>m v. m = Inr v) ms vs"
  shows "sequence ms = Inr vs"
  using assms by (induction rule: list_all2_induct) simp_all

text \<open>The two vertices of the star polygon.\<close>

lemma star_points_eq:
  assumes "bounded 41 (PyInt star_radius)"
  obtains outer inner where
    "star_offset star_radius 0 = Inr outer" "star_offset star_radius 1 = Inr inner"
    "star_points star_x star_y star_radius = Inr
       [(PyInt (star_x + outer), PyInt (star_y + outer)),
        (PyInt (star_x + inner), PyInt (star_y + inner)),
        (PyInt (star_x + outer), PyInt (star_y + outer)),
        (PyInt (star_x + inner), PyInt (star_y + inner)),
        (PyInt (star_x + outer), PyInt (star_y + outer)),
        (PyInt (star_x + inner), PyInt (star_y + inner)),
        (PyInt (star_x + outer), PyInt (star_y + outer)),
        (PyInt (star_x + inner), PyInt (star_y + inner)),
        (PyInt (star_x + outer), PyInt (star_y + outer)),
        (PyInt (star_x + inner), PyInt (star_y + inner))]"
proof -
  obtain outer where outer: "star_offset star_radius 0 = Inr outer"
    using star_offset_ok[OF assms, of 0] by blast
  obtain inner where inner: "star_offset star_radius 1 = Inr inner"
    using star_offset_ok[OF assms, of 1] by blast
  have even: "star_offset star_radius 2 = Inr outer" "star_offset star_radius 4 = Inr outer"
    "star_offset star_radius 6 = Inr outer" "star_offset star_radius 8 = Inr outer"
    using outer by (simp_all add: star_offset_def)
  have odd: "star_offset star_radius 3 = Inr inner" "star_offset star_radius 5 = Inr inner"
    "star_offset star_radius 7 = Inr inner" "star_offset star_radius 9 = Inr inner"
    using inner by (simp_all add: star_offset_def)
  show ?thesis
    by (rule that[OF outer inner])
       (simp add: star_points_def py_range_10 star_point_eq outer inner even odd)
qed





lemma to_mode_RGB_no_alpha [simp]: "\<not> has_alpha (to_mode RGB p)"
  by (cases p) simp_all











section \<open>The star\<close>

lemma star_glyph_eq:
  assumes t: "foreground_transform size' = Inr (fs, tx, ty)"
    and fs: "bounded 31 fs" and tx: "bounded 36 tx" and ty: "bounded 36 ty"
    and a: "shield_anchor (fs, tx, ty) = Inr (base_x, base_y, shield_size)"
    and sy: "py_int (py_add (py_mul (py_sub (lit_int 54) (lit_int 34)) (var fs)) (var ty))
               = Inr star_y"
    and sr: "py_int (py_mul (lit_int 6) (var fs)) = Inr star_radius"
    and o: "star_offset star_radius 0 = Inr outer" "star_offset star_radius 1 = Inr inner"
  shows "star_glyph size' = Inr (star_of base_x star_y outer inner)"
proof -
  from shield_anchor_ok[OF fs tx ty] a
  have b: "bounded 41 (PyInt base_x)" "bounded 41 (PyInt base_y)" "bounded 41 (PyInt shield_size)"
    by auto
  from shield_path_ok[OF b]
  obtain path where path: "shield_path base_x base_y shield_size = Inr path"
    "length path = 8" "list_all (bounded_point 51) path" by blast
  from inner_shield_ok[OF b(1,2) path(3)]
  obtain inner_path where inner_path: "inner_shield base_x base_y path = Inr inner_path"
    by blast
  have "ok 41 (py_mul (lit_int 12) (var fs))"
    by (rule ok_weaken, (rule ok_rules fs | simp)+)
  then obtain check_size where cs: "py_int (py_mul (lit_int 12) (var fs)) = Inr check_size"
    "\<bar>check_size\<bar> \<le> 2 ^ 41" by (rule ok_int)
  have csb: "bounded 41 (PyInt check_size)" by (simp only: bounded_PyInt cs)
  from check_points_ok[OF b(1,2) csb]
  obtain check where check: "check_points base_x base_y check_size = Inr check" by blast
  have "ok 41 (py_mul (lit_int 6) (var fs))"
    by (rule ok_weaken, (rule ok_rules fs | simp)+)
  then obtain r where "py_int (py_mul (lit_int 6) (var fs)) = Inr r" "\<bar>r\<bar> \<le> 2 ^ 41"
    by (rule ok_int)
  then have srb: "bounded 41 (PyInt star_radius)" using sr by (simp only: bounded_PyInt) simp
  have pts: "star_points base_x star_y star_radius = Inr (star_of base_x star_y outer inner)"
  proof (rule star_points_eq[OF srb, of base_x star_y])
    fix outer' inner'
    assume "star_offset star_radius 0 = Inr outer'" "star_offset star_radius 1 = Inr inner'"
      and e: "star_points base_x star_y star_radius = Inr
       [(PyInt (base_x + outer'), PyInt (star_y + outer')),
        (PyInt (base_x + inner'), PyInt (star_y + inner')),
        (PyInt (base_x + outer'), PyInt (star_y + outer')),
        (PyInt (base_x + inner'), PyInt (star_y + inner')),
        (PyInt (base_x + outer'), PyInt (star_y + outer')),
        (PyInt (base_x + inner'), PyInt (star_y + inner')),
        (PyInt (base_x + outer'), PyInt (star_y + outer')),
        (PyInt (base_x + inner'), PyInt (star_y + inner')),
        (PyInt (base_x + outer'), PyInt (star_y + outer')),
        (PyInt (base_x + inner'), PyInt (star_y + inner'))]"
    then have "outer' = outer" "inner' = inner" using o by simp_all
    then show ?thesis using e by (simp add: star_of_def)
  qed
  have "foreground_glyphs size' = Inr \<lparr>shield = path, highlight = inner_path,
          checkmark = check, star = star_of base_x star_y outer inner\<rparr>"
    by (simp only: foreground_glyphs_def t a ebind_Inr prod.case path(1) inner_path cs(1)
        check sy sr pts)
  then show ?thesis by (simp add: star_glyph_def)
qed

lemma transform_512:
  "foreground_transform 512 = Inr
     (PyFloat (Fin (1868159845427761 / 562949953421312)),
      PyFloat (Fin (5404319552844595 / 70368744177664)),
      PyFloat (Fin (5404319552844595 / 70368744177664)))"
  by code_simp

lemma anchor_512:
  "shield_anchor
     (PyFloat (Fin (1868159845427761 / 562949953421312)),
      PyFloat (Fin (5404319552844595 / 70368744177664)),
      PyFloat (Fin (5404319552844595 / 70368744177664))) = Inr (255, 255, 86)"
  by code_simp

lemma star_y_512:
  "py_int (py_add (py_mul (py_sub (lit_int 54) (lit_int 34))
       (var (PyFloat (Fin (1868159845427761 / 562949953421312)))))
       (var (PyFloat (Fin (5404319552844595 / 70368744177664))))) = Inr 143"
  by code_simp

lemma star_radius_512:
  "py_int (py_mul (lit_int 6) (var (PyFloat (Fin (1868159845427761 / 562949953421312)))))
     = Inr 19"
  by code_simp

lemma star_offsets_19: "star_offset 19 0 = Inr 13" "star_offset 19 1 = Inr (- 5)"
  by code_simp+

lemma star_glyph_two_vertices:
  assumes "0 < size'" "size' < 2 ^ 31"
  shows "\<exists>cx cy outer inner. star_glyph size' = Inr (star_of cx cy outer inner)"
proof -
  have "size' \<le> 2 ^ 31" using assms(2) by simp
  from foreground_transform_ok[OF assms(1) this]
  obtain fs tx ty where t: "foreground_transform size' = Inr (fs, tx, ty)"
    and fs: "bounded 31 fs" and tx: "bounded 36 tx" and ty: "bounded 36 ty" by blast
  from shield_anchor_ok[OF fs tx ty]
  obtain base_x base_y shield_size where
    a: "shield_anchor (fs, tx, ty) = Inr (base_x, base_y, shield_size)" by blast
  have "ok 41 (py_add (py_mul (py_sub (lit_int 54) (lit_int 34)) (var fs)) (var ty))"
    by (rule ok_weaken, (rule ok_rules fs ty | simp)+)
  then obtain star_y where sy:
    "py_int (py_add (py_mul (py_sub (lit_int 54) (lit_int 34)) (var fs)) (var ty)) = Inr star_y"
    "\<bar>star_y\<bar> \<le> 2 ^ 41" by (rule ok_int)
  have "ok 41 (py_mul (lit_int 6) (var fs))"
    by (rule ok_weaken, (rule ok_rules fs | simp)+)
  then obtain star_radius where sr: "py_int (py_mul (lit_int 6) (var fs)) = Inr star_radius"
    "\<bar>star_radius\<bar> \<le> 2 ^ 41" by (rule ok_int)
  have srb: "bounded 41 (PyInt star_radius)" by (simp only: bounded_PyInt sr)
  obtain outer where outer: "star_offset star_radius 0 = Inr outer"
    using star_offset_ok[OF srb, of 0] by blast
  obtain inner where inner: "star_offset star_radius 1 = Inr inner"
    using star_offset_ok[OF srb, of 1] by blast
  from star_glyph_eq[OF t fs tx ty a sy(1) sr(1) outer inner] show ?thesis by blast
qed

text \<open>
  C2. The star polygon of the size 512 has ten vertices but only two positions: the even
  vertices all lie at \<open>(268, 156)\<close> and the odd ones at \<open>(250, 138)\<close>, on one diagonal. The
  angle \<open>i * 3.14159 / 5 - 1.5708\<close> of the loop is computed and never used, so the
  vertices are not placed at 36-degree increments around the centre.
\<close>

theorem star_glyph_512:
  "star_glyph 512 = Inr
     [(PyInt 268, PyInt 156), (PyInt 250, PyInt 138), (PyInt 268, PyInt 156),
      (PyInt 250, PyInt 138), (PyInt 268, PyInt 156), (PyInt 250, PyInt 138),
      (PyInt 268, PyInt 156), (PyInt 250, PyInt 138), (PyInt 268, PyInt 156),
      (PyInt 250, PyInt 138)]"
proof -
  have "star_glyph 512 = Inr (star_of 255 143 13 (- 5))"
    by (rule star_glyph_eq[OF transform_512 _ _ _ anchor_512 star_y_512 star_radius_512
          star_offsets_19]) simp_all
  then show ?thesis by (simp add: star_of_def)
qed

theorem star_glyph_512_witness:
  "ebind (star_glyph 512) (\<lambda>pts. Inr (length pts, pts ! 0 = pts ! 2, pts ! 1 = pts ! 3))
     = Inr (10, True, True)"
  by (simp add: star_glyph_512)

section \<open>The import guard\<close>

lemma script_import_failure:
  assumes "import_failure env = Some e"
  shows "script env L w =
    (if e = ImportError
     then (1, print ''Install with: pip install cairosvg pillow''
                (print ''Error: Missing required packages.'' w))
     else (1, w))"
  using assms
  by (auto simp add: script_def import_guard_def import_failure_def split: import_result.splits)

text \<open>
  C7, as stated, fails when the capability is absent in a way that is not an
  \<^verbatim>\<open>ImportError\<close>: with the cairosvg package installed and its native library missing,
  \<^verbatim>\<open>import cairosvg\<close> raises \<^verbatim>\<open>OSError\<close>, which the guard does not catch; the program
  ends with status 1 and prints no message.
\<close>

theorem import_oserror_no_message:
  "script \<lparr>import_PIL = Imported, import_cairosvg = ImportRaises OSError\<rparr>
     vertex_imaging empty_world = (1, empty_world)
   \<and> stdout empty_world = []"
  by (simp add: script_def import_guard_def empty_world_def)

text \<open>
  C7, amended. When an import of PIL or cairosvg fails at startup, the program terminates
  with exit status 1 without creating a directory or writing a file; when the failure
  is an \<^verbatim>\<open>ImportError\<close> it first prints the fixed message and the installation hint, and
  otherwise it prints nothing.
\<close>

theorem missing_package_exit:
  assumes "import_failure env = Some e"
  shows "fst (script env L w) = 1
    \<and> stdout (snd (script env L w)) =
        (if e = ImportError
         then stdout w @ [''Error: Missing required packages.'',
                          ''Install with: pip install cairosvg pillow'']
         else stdout w)
    \<and> dirs (snd (script env L w)) = dirs w
    \<and> files (snd (script env L w)) = files w"
  by (simp add: script_import_failure[OF assms] print_def)

theorem missing_package_exit_witness:
  "fst (script \<lparr>import_PIL = ImportRaises ImportError, import_cairosvg = Imported\<rparr>
          vertex_imaging empty_world) = 1
   \<and> stdout (snd (script \<lparr>import_PIL = ImportRaises ImportError, import_cairosvg = Imported\<rparr>
          vertex_imaging empty_world))
       = [''Error: Missing required packages.'', ''Install with: pip install cairosvg pillow'']
   \<and> dirs (snd (script \<lparr>import_PIL = ImportRaises ImportError, import_cairosvg = Imported\<rparr>
          vertex_imaging empty_world)) = {}
   \<and> files (snd (script \<lparr>import_PIL = ImportRaises ImportError, import_cairosvg = Imported\<rparr>
          vertex_imaging empty_world)) = Map.empty"
proof -
  have "import_failure \<lparr>import_PIL = ImportRaises ImportError, import_cairosvg = Imported\<rparr>
      = Some ImportError"
    by (simp add: import_failure_def)
  from missing_package_exit[OF this, of vertex_imaging empty_world]
  show ?thesis by (simp add: empty_world_def)
qed


section \<open>The driver writes the icons\<close>

lemma dirname_path_join:
  assumes "CHR ''/'' \<notin> set f"
  shows "dirname (path_join d f) = d"
proof -
  have "dropWhile (\<lambda>c. c \<noteq> CHR ''/'') (rev f @ CHR ''/'' # rev d) = CHR ''/'' # rev d"
    using assms by (subst dropWhile_append2) auto
  then show ?thesis by (simp add: dirname_def path_join_def)
qed



lemma and_then_Inr [simp]: "and_then (Inr u, w) next = next w"
  by (simp add: and_then_def)

lemma and_then_Inl [simp]: "and_then (Inl e, w) next = (Inl e, w)"
  by (simp add: and_then_def)

text \<open>One round of the loop of \<open>main\<close> when rendering and saving succeed.\<close>

lemma generate_step:
  assumes "create_play_store_icon L n = Inr icon"
    "CHR ''/'' \<notin> set f" "d \<noteq> []" "d \<in> dirs w"
    "path_join d f \<notin> dirs w" "path_join d f \<notin> denied w"
  shows "generate L d ((n, f) # rest) w =
    generate L d rest
      (w\<lparr>files := (files w)(path_join d f \<mapsto> PNG icon),
         stdout := stdout w @ [''Generating '' @ str n @ ''x'' @ str n @ '' icon...'',
                               [CHR 0xE2, CHR 0x9C, CHR 0x93] @ '' Saved: '' @ path_join d f]\<rparr>)"
  using assms
  by (simp add: Let_def print_def save_def dirname_path_join)












end
